theory Spec2Isabelle
  imports Main "HOL-Library.Word" "HOL-Library.Multiset" "HOL-Library.Sublist"

begin

unbundle bit_operations_syntax

section \<open>Data model\<close>

text \<open>
  The two programs (\<^verbatim>\<open>HuffEncrypt.go\<close> and the decoder) share the declarations of
  \<^verbatim>\<open>Node\<close>, \<^verbatim>\<open>Nodes\<close>, \<^verbatim>\<open>BuildHuffmanTree\<close> and \<^verbatim>\<open>BuildHuffmanCodes\<close> verbatim.

  A Go \<^verbatim>\<open>rune\<close> is an \<^verbatim>\<open>int32\<close>, a Go \<^verbatim>\<open>int\<close> is taken as 64 bits wide; \<^verbatim>\<open>+\<close> wraps and
  \<^verbatim>\<open><\<close> compares the signed values. A \<^verbatim>\<open>*Node\<close> is a \<open>node option\<close>, \<open>None\<close> being
  \<^verbatim>\<open>nil\<close>. A string that the code walks with \<^verbatim>\<open>range\<close> is the list of runes that the walk
  yields, and so is the content of a file and a code of the code book; joining two
  well-formed strings joins their lists of runes.
\<close>

type_synonym rune = "32 word"

datatype node =
  Node (Char': rune) (Freq: "64 word") (Left: "node option") (Right: "node option")
    (IsParent: bool)

text \<open>
  What can go wrong: the two run-time panics of the code (an index out of range, a
  \<^verbatim>\<open>nil\<close> pointer dereference) and the three errors that \<^verbatim>\<open>EncryptFile\<close> and
  \<^verbatim>\<open>DecryptFile\<close> return.
\<close>

datatype failure =
  IndexOutOfRange | NilDereference | ReadError | WriteError | UnknownSymbol rune

fun is_panic :: "failure \<Rightarrow> bool" where
  "is_panic IndexOutOfRange = True"
| "is_panic NilDereference = True"
| "is_panic ReadError = False"
| "is_panic WriteError = False"
| "is_panic (UnknownSymbol c) = False"

section \<open>Sorting the working collection\<close>

text \<open>\<^verbatim>\<open>func (n Nodes) Less(i, j int) bool { return n[i].Freq < n[j].Freq }\<close>\<close>

definition Less :: "node list \<Rightarrow> nat \<Rightarrow> nat \<Rightarrow> bool" where
  "Less n i j = (Freq (n ! i) <s Freq (n ! j))"

text \<open>
  \<^verbatim>\<open>sort.Sort\<close> belongs to Go's standard library, not to this repository, so the model
  takes it as a parameter \<open>srt\<close>. What the library documents about it is \<open>sort_contract\<close>:
  the result is a rearrangement of the slice in which no element is \<^verbatim>\<open>Less\<close> than an
  earlier one. The library does not promise that equal elements keep their order: its
  documentation of \<^verbatim>\<open>Sort\<close> reads \<^emph>\<open>The sort is not guaranteed to be stable\<close>, and the
  stable variant is a function of its own, \<^verbatim>\<open>sort.Stable\<close>, which the code does not call.
\<close>

definition sort_contract :: "(node list \<Rightarrow> node list) \<Rightarrow> bool" where
  "sort_contract srt =
     (\<forall>xs. mset (srt xs) = mset xs \<and> (\<forall>j<length xs. \<forall>i<j. \<not> Less (srt xs) j i))"

text \<open>
  A sort that meets the contract: the stable one, in which equal weights keep their order.
  It is the result of an insertion sort that swaps on \<^verbatim>\<open>Less\<close> only.
\<close>

definition stable_sort :: "node list \<Rightarrow> node list" where
  "stable_sort xs = sort_key (\<lambda>n. sint (Freq n)) xs"

section \<open>BuildHuffmanTree\<close>

text \<open>
  \<^verbatim>\<open>for char, freq := range frequencies { nodes = append(nodes, &Node{Char: char, Freq: freq}) }\<close>

  Go leaves the order in which \<^verbatim>\<open>range\<close> visits a map unspecified, so the table reaches
  the model as the list \<open>fs\<close> of its entries in the order of the visit; \<open>range_order\<close> says
  that \<open>fs\<close> is such a visit of the map \<open>m\<close>.
\<close>

definition range_order :: "(rune \<rightharpoonup> 64 word) \<Rightarrow> (rune \<times> 64 word) list \<Rightarrow> bool" where
  "range_order m fs = (distinct (map fst fs) \<and> map_of fs = m)"

definition leaf_nodes :: "(rune \<times> 64 word) list \<Rightarrow> node list" where
  "leaf_nodes fs = map (\<lambda>(char, freq). Node char freq None None False) fs"

text \<open>
  \<^verbatim>\<open>parent := &Node{Freq: left.Freq + right.Freq, Left: left, Right: right, IsParent: true}\<close>
\<close>

definition parent_of :: "node \<Rightarrow> node \<Rightarrow> node" where
  "parent_of left right = Node 0 (Freq left + Freq right) (Some left) (Some right) True"

text \<open>The body of the loop: \<^verbatim>\<open>nodes = append(nodes[2:], parent); sort.Sort(nodes)\<close>.\<close>

definition merge_step :: "(node list \<Rightarrow> node list) \<Rightarrow> node list \<Rightarrow> node list" where
  "merge_step srt nodes = srt (drop 2 nodes @ [parent_of (nodes ! 0) (nodes ! 1)])"

text \<open>
  \<^verbatim>\<open>for len(nodes) > 1 { ... }\<close>. For a parameter \<open>srt\<close> that lengthens its argument the
  loop need not end, so the result is an option, \<open>None\<close> for a run that never returns.
\<close>

partial_function (option) merge_loop ::
  "(node list \<Rightarrow> node list) \<Rightarrow> node list \<Rightarrow> node list option" where
  "merge_loop srt nodes =
     (if 1 < length nodes then merge_loop srt (merge_step srt nodes) else Some nodes)"

declare merge_loop.simps [code]

text \<open>
  \<^verbatim>\<open>return nodes[0]\<close> panics with an index out of range when the slice is empty.
\<close>

definition BuildHuffmanTree ::
  "(node list \<Rightarrow> node list) \<Rightarrow> (rune \<times> 64 word) list \<Rightarrow> (failure + node) option" where
  "BuildHuffmanTree srt fs =
     (case merge_loop srt (srt (leaf_nodes fs)) of
        None \<Rightarrow> None
      | Some nodes \<Rightarrow>
          (case nodes of [] \<Rightarrow> Some (Inl IndexOutOfRange) | root # rest \<Rightarrow> Some (Inr root)))"

text \<open>The working collections at the head of the loop, over a whole run.\<close>

inductive loop_head ::
  "(node list \<Rightarrow> node list) \<Rightarrow> (rune \<times> 64 word) list \<Rightarrow> node list \<Rightarrow> bool"
  for srt fs where
  loop_head_first: "loop_head srt fs (srt (leaf_nodes fs))"
| loop_head_next:
    "loop_head srt fs nodes \<Longrightarrow> 1 < length nodes \<Longrightarrow> loop_head srt fs (merge_step srt nodes)"

section \<open>BuildHuffmanCodes\<close>

text \<open>
  The code \<^verbatim>\<open>code+"0"\<close> is the list of the runes of the string, \<open>48\<close> for \<^verbatim>\<open>'0'\<close> and \<open>49\<close>
  for \<^verbatim>\<open>'1'\<close>. The map \<^verbatim>\<open>codes\<close> is updated in place; the model returns it.
\<close>

fun BuildHuffmanCodes ::
  "node option \<Rightarrow> rune list \<Rightarrow> (rune \<rightharpoonup> rune list) \<Rightarrow> (rune \<rightharpoonup> rune list)" where
  "BuildHuffmanCodes None code codes = codes"
| "BuildHuffmanCodes (Some (Node c f l r p)) code codes =
     (if \<not> p then codes(c \<mapsto> code)
      else BuildHuffmanCodes r (code @ [49]) (BuildHuffmanCodes l (code @ [48]) codes))"

section \<open>Counting frequencies\<close>

text \<open>\<^verbatim>\<open>for _, char := range string(content) { frequencies[char]++ }\<close> in \<^verbatim>\<open>main\<close>.\<close>

fun count_frequencies :: "rune list \<Rightarrow> (rune \<rightharpoonup> 64 word) \<Rightarrow> (rune \<rightharpoonup> 64 word)" where
  "count_frequencies [] frequencies = frequencies"
| "count_frequencies (char # rest) frequencies =
     count_frequencies rest
       (frequencies(char \<mapsto> (case frequencies char of None \<Rightarrow> 0 | Some k \<Rightarrow> k) + 1))"

section \<open>Files\<close>

text \<open>
  \<^verbatim>\<open>ioutil.ReadFile\<close> and \<^verbatim>\<open>ioutil.WriteFile\<close> over a file system: reading a missing file
  fails, writing a file that is not writable fails and changes nothing.
\<close>

record filesys =
  contents :: "string \<rightharpoonup> rune list"
  writable :: "string \<Rightarrow> bool"

definition ReadFile :: "filesys \<Rightarrow> string \<Rightarrow> failure + rune list" where
  "ReadFile fs name = (case contents fs name of None \<Rightarrow> Inl ReadError | Some c \<Rightarrow> Inr c)"

definition WriteFile :: "filesys \<Rightarrow> string \<Rightarrow> rune list \<Rightarrow> failure + filesys" where
  "WriteFile fs name content =
     (if writable fs name then Inr (fs\<lparr>contents := (contents fs)(name \<mapsto> content)\<rparr>)
      else Inl WriteError)"

section \<open>EncryptFile\<close>

fun encrypt_loop ::
  "(rune \<rightharpoonup> rune list) \<Rightarrow> rune list \<Rightarrow> rune list \<Rightarrow> failure + rune list" where
  "encrypt_loop codes [] encryptedContent = Inr encryptedContent"
| "encrypt_loop codes (char # rest) encryptedContent =
     (case codes char of
        None \<Rightarrow> Inl (UnknownSymbol char)
      | Some code \<Rightarrow> encrypt_loop codes rest (encryptedContent @ code))"

text \<open>The result is the returned error (\<open>None\<close> for \<^verbatim>\<open>nil\<close>) and the file system left behind.\<close>

definition EncryptFile ::
  "filesys \<Rightarrow> string \<Rightarrow> string \<Rightarrow> (rune \<rightharpoonup> rune list) \<Rightarrow> failure option \<times> filesys" where
  "EncryptFile fs inputFile outputFile codes =
     (case ReadFile fs inputFile of
        Inl e \<Rightarrow> (Some e, fs)
      | Inr content \<Rightarrow>
          (case encrypt_loop codes content [] of
             Inl e \<Rightarrow> (Some e, fs)
           | Inr encryptedContent \<Rightarrow>
               (case WriteFile fs outputFile encryptedContent of
                  Inl e \<Rightarrow> (Some e, fs)
                | Inr fs' \<Rightarrow> (None, fs'))))"

section \<open>DecryptFile\<close>

text \<open>
  \<^verbatim>\<open>string(currentNode.Char)\<close> is the UTF-8 encoding of the rune, and that of U+FFFD for
  a value that is no Unicode scalar value (negative, above U+10FFFF, or a surrogate).
\<close>

definition valid_rune :: "rune \<Rightarrow> bool" where
  "valid_rune c = (c \<le> 1114111 \<and> \<not> (55296 \<le> c \<and> c \<le> 57343))"

definition string_of_rune :: "rune \<Rightarrow> rune" where
  "string_of_rune c = (if valid_rune c then c else 65533)"

text \<open>
  The loop moves to a child first and looks at the child's fields next; each of the two
  dereferences panics on \<^verbatim>\<open>nil\<close>.
\<close>

fun decrypt_loop ::
  "node option \<Rightarrow> node option \<Rightarrow> rune list \<Rightarrow> rune list \<Rightarrow> failure + rune list" where
  "decrypt_loop root currentNode [] decryptedContent = Inr decryptedContent"
| "decrypt_loop root currentNode (bit' # rest) decryptedContent =
     (case currentNode of
        None \<Rightarrow> Inl NilDereference
      | Some cur \<Rightarrow>
          (case (if bit' = 48 then Left cur else Right cur) of
             None \<Rightarrow> Inl NilDereference
           | Some nxt \<Rightarrow>
               if Left nxt = None \<and> Right nxt = None
               then decrypt_loop root root rest (decryptedContent @ [string_of_rune (Char' nxt)])
               else decrypt_loop root (Some nxt) rest decryptedContent))"

definition DecryptFile ::
  "filesys \<Rightarrow> string \<Rightarrow> string \<Rightarrow> node option \<Rightarrow> failure option \<times> filesys" where
  "DecryptFile fs inputFile outputFile root =
     (case ReadFile fs inputFile of
        Inl e \<Rightarrow> (Some e, fs)
      | Inr content \<Rightarrow>
          (case decrypt_loop root root content [] of
             Inl e \<Rightarrow> (Some e, fs)
           | Inr decryptedContent \<Rightarrow>
               (case WriteFile fs outputFile decryptedContent of
                  Inl e \<Rightarrow> (Some e, fs)
                | Inr fs' \<Rightarrow> (None, fs'))))"

section \<open>Observations on a tree\<close>

text \<open>
  A leaf is a node with no child (the test of \<^verbatim>\<open>DecryptFile\<close>). \<open>leaf_pairs\<close> lists the
  character and weight of every leaf from left to right, \<open>internal_count\<close> counts the nodes
  that are no leaves, and \<open>weights_ok\<close> says that every such node has two children whose
  weights add up to its own.
\<close>

fun leaf_pairs :: "node \<Rightarrow> (rune \<times> 64 word) list" where
  "leaf_pairs (Node c f None None p) = [(c, f)]"
| "leaf_pairs (Node c f (Some l) None p) = leaf_pairs l"
| "leaf_pairs (Node c f None (Some r) p) = leaf_pairs r"
| "leaf_pairs (Node c f (Some l) (Some r) p) = leaf_pairs l @ leaf_pairs r"

fun internal_count :: "node \<Rightarrow> nat" where
  "internal_count (Node c f None None p) = 0"
| "internal_count (Node c f (Some l) None p) = Suc (internal_count l)"
| "internal_count (Node c f None (Some r) p) = Suc (internal_count r)"
| "internal_count (Node c f (Some l) (Some r) p) = Suc (internal_count l + internal_count r)"

fun weights_ok :: "node \<Rightarrow> bool" where
  "weights_ok (Node c f None None p) = True"
| "weights_ok (Node c f (Some l) None p) = False"
| "weights_ok (Node c f None (Some r) p) = False"
| "weights_ok (Node c f (Some l) (Some r) p) =
     (f = Freq l + Freq r \<and> weights_ok l \<and> weights_ok r)"

text \<open>
  The nodes that \<^verbatim>\<open>BuildHuffmanTree\<close> makes: a leaf as the first loop makes it, a parent
  as the second loop makes it from two such nodes. \<open>paths\<close> lists every leaf's character
  with the bits that lead to it.
\<close>

inductive is_tree :: "node \<Rightarrow> bool" where
  is_tree_leaf: "is_tree (Node c f None None False)"
| is_tree_parent: "is_tree l \<Longrightarrow> is_tree r \<Longrightarrow> is_tree (parent_of l r)"

fun paths :: "node \<Rightarrow> (rune \<times> rune list) list" where
  "paths (Node c f None None p) = [(c, [])]"
| "paths (Node c f (Some l) None p) = map (\<lambda>(a, bs). (a, 48 # bs)) (paths l)"
| "paths (Node c f None (Some r) p) = map (\<lambda>(a, bs). (a, 49 # bs)) (paths r)"
| "paths (Node c f (Some l) (Some r) p) =
     map (\<lambda>(a, bs). (a, 48 # bs)) (paths l) @ map (\<lambda>(a, bs). (a, 49 # bs)) (paths r)"

text \<open>The leaves of a whole working collection, as a multiset.\<close>

definition leaf_mset :: "node list \<Rightarrow> (rune \<times> 64 word) multiset" where
  "leaf_mset nodes = (\<Sum>n\<in>#mset nodes. mset (leaf_pairs n))"

text \<open>One store of \<^verbatim>\<open>codes[root.Char] = code\<close>, for the leaf at the end of the path \<open>bs\<close>.\<close>

definition bind_code ::
  "rune list \<Rightarrow> rune \<times> rune list \<Rightarrow> (rune \<rightharpoonup> rune list) \<Rightarrow> (rune \<rightharpoonup> rune list)" where
  "bind_code code = (\<lambda>(c, bs) m. m(c \<mapsto> code @ bs))"

section \<open>The library's sort\<close>

text \<open>
  \<^verbatim>\<open>sort.Sort\<close> as Go's standard library has it since Go 1.19 (a pattern-defeating
  quicksort, file \<^verbatim>\<open>sort/zsortinterface.go\<close>): slices of up to 12 elements are sorted by
  insertion, longer ones are partitioned around a pivot first. It reaches the slice through
  \<^verbatim>\<open>Len\<close>, \<^verbatim>\<open>Less\<close> and \<^verbatim>\<open>Swap\<close> only.
\<close>

text \<open>
  \<^verbatim>\<open>func (n Nodes) Swap(i, j int) { n[i], n[j] = n[j], n[i] }\<close>, the third method of this
  repository's \<^verbatim>\<open>Nodes\<close>.
\<close>

definition Swap :: "node list \<Rightarrow> nat \<Rightarrow> nat \<Rightarrow> node list" where
  "Swap n i j = n[i := n ! j, j := n ! i]"

text \<open>
  The library works with indices of type \<^verbatim>\<open>int\<close>; these are the two methods at such
  indices.
\<close>

definition less_at :: "node list \<Rightarrow> int \<Rightarrow> int \<Rightarrow> bool" where
  "less_at data i j = Less data (nat i) (nat j)"

definition swap_at :: "node list \<Rightarrow> int \<Rightarrow> int \<Rightarrow> node list" where
  "swap_at data i j = Swap data (nat i) (nat j)"

text \<open>
  \<^verbatim>\<open>func insertionSort(data Interface, a, b int)\<close>:
  \<^verbatim>\<open>for i := a + 1; i < b; i++ { for j := i; j > a && data.Less(j, j-1); j-- { data.Swap(j, j-1) } }\<close>
\<close>

function insertion_shift :: "node list \<Rightarrow> int \<Rightarrow> int \<Rightarrow> node list" where
  "insertion_shift data a j =
     (if j > a \<and> less_at data j (j - 1)
      then insertion_shift (swap_at data j (j - 1)) a (j - 1) else data)"
  by pat_completeness auto
termination
  by (relation "measure (\<lambda>(data, a, j). nat (j - a))") auto

declare insertion_shift.simps [simp del]

function insertion_from :: "node list \<Rightarrow> int \<Rightarrow> int \<Rightarrow> int \<Rightarrow> node list" where
  "insertion_from data a b i =
     (if i < b then insertion_from (insertion_shift data a i) a b (i + 1) else data)"
  by pat_completeness auto
termination
  by (relation "measure (\<lambda>(data, a, b, i). nat (b - i))") auto

declare insertion_from.simps [simp del]

definition insertionSort :: "node list \<Rightarrow> int \<Rightarrow> int \<Rightarrow> node list" where
  "insertionSort data a b = insertion_from data a b (a + 1)"

text \<open>
  \<^verbatim>\<open>func siftDown(data Interface, lo, hi, first int)\<close> and \<^verbatim>\<open>func heapSort(data Interface, a, b int)\<close>,
  the fallback after too many unbalanced pivots. \<open>heap_build\<close> is the loop
  \<^verbatim>\<open>for i := (hi - 1) / 2; i >= 0; i-- { siftDown(data, i, hi, first) }\<close> and \<open>heap_pop\<close> the loop
  \<^verbatim>\<open>for i := hi - 1; i >= 0; i-- { data.Swap(first, first+i); siftDown(data, lo, i, first) }\<close>.
\<close>

function siftDown_from :: "node list \<Rightarrow> nat \<Rightarrow> nat \<Rightarrow> nat \<Rightarrow> node list" where
  "siftDown_from data hi first root =
     (let child = 2 * root + 1 in
      if child \<ge> hi then data
      else
        let child = (if child + 1 < hi \<and> Less data (first + child) (first + child + 1)
                     then child + 1 else child) in
        if \<not> Less data (first + root) (first + child) then data
        else siftDown_from (Swap data (first + root) (first + child)) hi first child)"
  by pat_completeness auto
termination
  by (relation "measure (\<lambda>(data, hi, first, root). hi - root)") (auto simp: Let_def)

declare siftDown_from.simps [simp del]

definition siftDown :: "node list \<Rightarrow> nat \<Rightarrow> nat \<Rightarrow> nat \<Rightarrow> node list" where
  "siftDown data lo hi first = siftDown_from data hi first lo"

fun heap_build :: "node list \<Rightarrow> nat \<Rightarrow> nat \<Rightarrow> nat \<Rightarrow> node list" where
  "heap_build data hi first 0 = siftDown data 0 hi first"
| "heap_build data hi first (Suc i) = heap_build (siftDown data (Suc i) hi first) hi first i"

fun heap_pop :: "node list \<Rightarrow> nat \<Rightarrow> nat \<Rightarrow> node list" where
  "heap_pop data first 0 = siftDown (Swap data first (first + 0)) 0 0 first"
| "heap_pop data first (Suc i) =
     heap_pop (siftDown (Swap data first (first + Suc i)) 0 (Suc i) first) first i"

definition heapSort :: "node list \<Rightarrow> nat \<Rightarrow> nat \<Rightarrow> node list" where
  "heapSort data a b =
     (let first = a; hi = b - a;
          data = heap_build data hi first ((hi - 1) div 2)
      in if hi = 0 then data else heap_pop data first (hi - 1))"

text \<open>\<^verbatim>\<open>bits.Len\<close>: the number of bits needed to write \<open>x\<close>.\<close>

function bits_Len :: "nat \<Rightarrow> nat" where
  "bits_Len x = (if x = 0 then 0 else Suc (bits_Len (x div 2)))"
  by pat_completeness auto
termination
  by (relation "measure (\<lambda>x. x)") auto

declare bits_Len.simps [simp del]

text \<open>
  \<^verbatim>\<open>func choosePivot(data Interface, a, b int) (pivot int, hint sortedHint)\<close> with
  \<^verbatim>\<open>order2\<close>, \<^verbatim>\<open>median\<close> and \<^verbatim>\<open>medianAdjacent\<close>; the counter \<^verbatim>\<open>swaps\<close> is passed along. Below
  8 elements the pivot is the middle one, below 50 the median of three, from 50 on the
  median of three medians; 12 is \<^verbatim>\<open>maxSwaps\<close>.
\<close>

datatype sortedHint = unknownHint | increasingHint | decreasingHint

definition order2 :: "node list \<Rightarrow> int \<Rightarrow> int \<Rightarrow> nat \<Rightarrow> int \<times> int \<times> nat" where
  "order2 data a b swaps = (if less_at data b a then (b, a, swaps + 1) else (a, b, swaps))"

definition median :: "node list \<Rightarrow> int \<Rightarrow> int \<Rightarrow> int \<Rightarrow> nat \<Rightarrow> int \<times> nat" where
  "median data a b c swaps =
     (let (a, b, swaps) = order2 data a b swaps;
          (b, c, swaps) = order2 data b c swaps;
          (a, b, swaps) = order2 data a b swaps
      in (b, swaps))"

definition medianAdjacent :: "node list \<Rightarrow> int \<Rightarrow> nat \<Rightarrow> int \<times> nat" where
  "medianAdjacent data a swaps = median data (a - 1) a (a + 1) swaps"

definition choosePivot :: "node list \<Rightarrow> int \<Rightarrow> int \<Rightarrow> int \<times> sortedHint" where
  "choosePivot data a b =
     (let l = b - a;
          i = a + l div 4 * 1;
          j = a + l div 4 * 2;
          k = a + l div 4 * 3;
          (j, swaps) =
            (if l \<ge> 8 then
               (let (i, j, k, swaps) =
                  (if l \<ge> 50 then
                     (let (i, swaps) = medianAdjacent data i 0;
                          (j, swaps) = medianAdjacent data j swaps;
                          (k, swaps) = medianAdjacent data k swaps
                      in (i, j, k, swaps))
                   else (i, j, k, 0))
                in median data i j k swaps)
             else (j, 0))
      in if swaps = 0 then (j, increasingHint)
         else if swaps = 12 then (j, decreasingHint)
         else (j, unknownHint))"

text \<open>\<^verbatim>\<open>func reverseRange(data Interface, a, b int)\<close>.\<close>

function reverse_loop :: "node list \<Rightarrow> int \<Rightarrow> int \<Rightarrow> node list" where
  "reverse_loop data i j =
     (if i < j then reverse_loop (swap_at data i j) (i + 1) (j - 1) else data)"
  by pat_completeness auto
termination
  by (relation "measure (\<lambda>(data, i, j). nat (j - i))") auto

declare reverse_loop.simps [simp del]

definition reverseRange :: "node list \<Rightarrow> int \<Rightarrow> int \<Rightarrow> node list" where
  "reverseRange data a b = reverse_loop data a (b - 1)"

text \<open>
  \<^verbatim>\<open>func partialInsertionSort(data Interface, a, b int) bool\<close>: at most 5 steps, each of
  which skips what is in order, gives up on a slice shorter than 50 elements, and otherwise
  swaps the pair that is out of order and shifts its two elements into place. The result is
  the slice and the returned flag.
\<close>

function skip_ordered :: "node list \<Rightarrow> int \<Rightarrow> int \<Rightarrow> int" where
  "skip_ordered data b i =
     (if i < b \<and> \<not> less_at data i (i - 1) then skip_ordered data b (i + 1) else i)"
  by pat_completeness auto
termination
  by (relation "measure (\<lambda>(data, b, i). nat (b - i))") auto

declare skip_ordered.simps [simp del]

function shift_left :: "node list \<Rightarrow> int \<Rightarrow> node list" where
  "shift_left data j =
     (if j \<ge> 1 then
        (if \<not> less_at data j (j - 1) then data
         else shift_left (swap_at data j (j - 1)) (j - 1))
      else data)"
  by pat_completeness auto
termination
  by (relation "measure (\<lambda>(data, j). nat j)") auto

declare shift_left.simps [simp del]

function shift_right :: "node list \<Rightarrow> int \<Rightarrow> int \<Rightarrow> node list" where
  "shift_right data b j =
     (if j < b then
        (if \<not> less_at data j (j - 1) then data
         else shift_right (swap_at data j (j - 1)) b (j + 1))
      else data)"
  by pat_completeness auto
termination
  by (relation "measure (\<lambda>(data, b, j). nat (b - j))") auto

declare shift_right.simps [simp del]

definition shift_pair :: "node list \<Rightarrow> int \<Rightarrow> int \<Rightarrow> int \<Rightarrow> node list" where
  "shift_pair data a b i =
     (let data = swap_at data i (i - 1);
          data = (if i - a \<ge> 2 then shift_left data (i - 1) else data)
      in if b - i \<ge> 2 then shift_right data b (i + 1) else data)"

function partial_steps :: "nat \<Rightarrow> node list \<Rightarrow> int \<Rightarrow> int \<Rightarrow> int \<Rightarrow> node list \<times> bool" where
  "partial_steps steps data a b i =
     (if steps < 5 then
        (let i = skip_ordered data b i in
         if i = b then (data, True)
         else if b - a < 50 then (data, False)
         else partial_steps (steps + 1) (shift_pair data a b i) a b i)
      else (data, False))"
  by pat_completeness auto
termination
  by (relation "measure (\<lambda>(steps, data, a, b, i). 5 - steps)") auto

declare partial_steps.simps [simp del]

definition partialInsertionSort :: "node list \<Rightarrow> int \<Rightarrow> int \<Rightarrow> node list \<times> bool" where
  "partialInsertionSort data a b = partial_steps 0 data a b (a + 1)"

text \<open>
  \<^verbatim>\<open>func breakPatterns(data Interface, a, b int)\<close>. The step \<^verbatim>\<open>random.Next()\<close> of its
  pseudo-random generator is the parameter \<open>nxt\<close>.
\<close>

definition nextPowerOfTwo :: "int \<Rightarrow> 64 word" where
  "nextPowerOfTwo len = push_bit (bits_Len (nat len)) 1"

function break_loop ::
  "(64 word \<Rightarrow> 64 word) \<Rightarrow> node list \<Rightarrow> int \<Rightarrow> int \<Rightarrow> 64 word \<Rightarrow> int \<Rightarrow> 64 word \<Rightarrow> int \<Rightarrow> node list" where
  "break_loop nxt data a len modulus idx random i =
     (if i < 3 then
        (let random = nxt random;
             other = sint (random AND (modulus - 1));
             other = (if other \<ge> len then other - len else other)
         in break_loop nxt (swap_at data (idx - 1 + i) (a + other)) a len modulus idx random
              (i + 1))
      else data)"
  by pat_completeness auto
termination
  by (relation "measure (\<lambda>(nxt, data, a, len, modulus, idx, random, i). nat (3 - i))") auto

declare break_loop.simps [simp del]

definition breakPatterns :: "(64 word \<Rightarrow> 64 word) \<Rightarrow> node list \<Rightarrow> int \<Rightarrow> int \<Rightarrow> node list" where
  "breakPatterns nxt data a b =
     (let len = b - a in
      if len \<ge> 8 then
        break_loop nxt data a len (nextPowerOfTwo len) (a + (len div 4) * 2 - 1)
          (word_of_int len) 0
      else data)"

text \<open>
  \<^verbatim>\<open>func partition(data Interface, a, b, pivot int) (newpivot int, alreadyPartitioned bool)\<close>.
  \<open>scan_less\<close> is \<^verbatim>\<open>for i <= j && data.Less(i, a) { i++ }\<close>, \<open>scan_not_less\<close> is
  \<^verbatim>\<open>for i <= j && !data.Less(j, a) { j-- }\<close>, and \<open>partition_loop\<close> is the \<^verbatim>\<open>for { ... }\<close>
  that follows the first swap.
\<close>

function scan_less :: "node list \<Rightarrow> int \<Rightarrow> int \<Rightarrow> int \<Rightarrow> int" where
  "scan_less data a i j =
     (if i \<le> j \<and> less_at data i a then scan_less data a (i + 1) j else i)"
  by pat_completeness auto
termination
  by (relation "measure (\<lambda>(data, a, i, j). nat (j + 1 - i))") auto

declare scan_less.simps [simp del]

function scan_not_less :: "node list \<Rightarrow> int \<Rightarrow> int \<Rightarrow> int \<Rightarrow> int" where
  "scan_not_less data a i j =
     (if i \<le> j \<and> \<not> less_at data j a then scan_not_less data a i (j - 1) else j)"
  by pat_completeness auto
termination
  by (relation "measure (\<lambda>(data, a, i, j). nat (j + 1 - i))") auto

declare scan_not_less.simps [simp del]

function partition_loop :: "node list \<Rightarrow> int \<Rightarrow> int \<Rightarrow> int \<Rightarrow> node list \<times> int" where
  "partition_loop data a i j =
     (let i = scan_less data a i j;
          j = scan_not_less data a i j
      in if i > j then (data, j)
         else partition_loop (swap_at data i j) a (i + 1) (j - 1))"
  by pat_completeness auto
termination
proof (relation "measure (\<lambda>(data, a, i, j). nat (j + 1 - i))")
  show "wf (measure (\<lambda>(data, a, i, j). nat (j + 1 - i)))" by simp
next
  fix data :: "node list" and a i j x xa :: int
  assume x: "x = scan_less data a i j" and xa: "xa = scan_not_less data a x j"
    and le: "\<not> xa < x"
  have up: "i \<le> scan_less data a i j"
    by (induction data a i j rule: scan_less.induct) (subst scan_less.simps, auto)
  have down: "scan_not_less data a x j \<le> j"
    by (induction data a x j rule: scan_not_less.induct) (subst scan_not_less.simps, auto)
  show "((swap_at data x xa, a, x + 1, xa - 1), (data, a, i, j))
      \<in> measure (\<lambda>(data, a, i, j). nat (j + 1 - i))"
    using up down x xa le by simp
qed

declare partition_loop.simps [simp del]

definition partition' :: "node list \<Rightarrow> int \<Rightarrow> int \<Rightarrow> int \<Rightarrow> node list \<times> int \<times> bool" where
  "partition' data a b pivot =
     (let data = swap_at data a pivot;
          i = scan_less data a (a + 1) (b - 1);
          j = scan_not_less data a i (b - 1)
      in if i > j then (swap_at data j a, j, True)
         else
           let (data, j) = partition_loop (swap_at data i j) a (i + 1) (j - 1)
           in (swap_at data j a, j, False))"

text \<open>
  \<^verbatim>\<open>func partitionEqual(data Interface, a, b, pivot int) (newpivot int)\<close>, with the loops
  \<^verbatim>\<open>for i <= j && !data.Less(a, i) { i++ }\<close> and \<^verbatim>\<open>for i <= j && data.Less(a, j) { j-- }\<close>.
\<close>

function scan_not_greater :: "node list \<Rightarrow> int \<Rightarrow> int \<Rightarrow> int \<Rightarrow> int" where
  "scan_not_greater data a i j =
     (if i \<le> j \<and> \<not> less_at data a i then scan_not_greater data a (i + 1) j else i)"
  by pat_completeness auto
termination
  by (relation "measure (\<lambda>(data, a, i, j). nat (j + 1 - i))") auto

declare scan_not_greater.simps [simp del]

function scan_greater :: "node list \<Rightarrow> int \<Rightarrow> int \<Rightarrow> int \<Rightarrow> int" where
  "scan_greater data a i j =
     (if i \<le> j \<and> less_at data a j then scan_greater data a i (j - 1) else j)"
  by pat_completeness auto
termination
  by (relation "measure (\<lambda>(data, a, i, j). nat (j + 1 - i))") auto

declare scan_greater.simps [simp del]

function equal_loop :: "node list \<Rightarrow> int \<Rightarrow> int \<Rightarrow> int \<Rightarrow> node list \<times> int" where
  "equal_loop data a i j =
     (let i = scan_not_greater data a i j;
          j = scan_greater data a i j
      in if i > j then (data, i)
         else equal_loop (swap_at data i j) a (i + 1) (j - 1))"
  by pat_completeness auto
termination
proof (relation "measure (\<lambda>(data, a, i, j). nat (j + 1 - i))")
  show "wf (measure (\<lambda>(data, a, i, j). nat (j + 1 - i)))" by simp
next
  fix data :: "node list" and a i j x xa :: int
  assume x: "x = scan_not_greater data a i j" and xa: "xa = scan_greater data a x j"
    and le: "\<not> xa < x"
  have up: "i \<le> scan_not_greater data a i j"
    by (induction data a i j rule: scan_not_greater.induct) (subst scan_not_greater.simps, auto)
  have down: "scan_greater data a x j \<le> j"
    by (induction data a x j rule: scan_greater.induct) (subst scan_greater.simps, auto)
  show "((swap_at data x xa, a, x + 1, xa - 1), (data, a, i, j))
      \<in> measure (\<lambda>(data, a, i, j). nat (j + 1 - i))"
    using up down x xa le by simp
qed

declare equal_loop.simps [simp del]

definition partitionEqual :: "node list \<Rightarrow> int \<Rightarrow> int \<Rightarrow> int \<Rightarrow> node list \<times> int" where
  "partitionEqual data a b pivot = equal_loop (swap_at data a pivot) a (a + 1) (b - 1)"

text \<open>
  \<^verbatim>\<open>func pdqsort(data Interface, a, b, limit int)\<close>. Its \<^verbatim>\<open>for { ... }\<close> goes round with new
  bounds and flags, and sorts the shorter side by a call of its own; both are calls of
  \<open>pdqsort\<close> here. The fuel counts these calls down, and \<open>None\<close> is a run out of fuel.
\<close>

function pdqsort ::
  "(64 word \<Rightarrow> 64 word) \<Rightarrow> nat \<Rightarrow> node list \<Rightarrow> int \<Rightarrow> int \<Rightarrow> nat \<Rightarrow> bool \<Rightarrow> bool \<Rightarrow> node list option" where
  "pdqsort nxt fuel data a b limit wasBalanced wasPartitioned =
     (if fuel = 0 then None
      else if b - a \<le> 12 then Some (insertionSort data a b)
      else if limit = 0 then Some (heapSort data (nat a) (nat b))
      else
        let data = (if \<not> wasBalanced then breakPatterns nxt data a b else data);
            limit = (if \<not> wasBalanced then limit - 1 else limit);
            (pivot, hint) = choosePivot data a b;
            data = (if hint = decreasingHint then reverseRange data a b else data);
            pivot = (if hint = decreasingHint then (b - 1) - (pivot - a) else pivot);
            hint = (if hint = decreasingHint then increasingHint else hint);
            (data, ordered) =
              (if wasBalanced \<and> wasPartitioned \<and> hint = increasingHint
               then partialInsertionSort data a b else (data, False))
        in
          if ordered then Some data
          else if a > 0 \<and> \<not> less_at data (a - 1) pivot then
            (let (data, mid) = partitionEqual data a b pivot
             in pdqsort nxt (fuel - 1) data mid b limit wasBalanced wasPartitioned)
          else
            (let (data, mid, alreadyPartitioned) = partition' data a b pivot;
                 leftLen = mid - a;
                 rightLen = b - mid;
                 balanceThreshold = (b - a) div 8
             in
               if leftLen < rightLen then
                 (case pdqsort nxt (fuel - 1) data a mid limit True True of
                    None \<Rightarrow> None
                  | Some data \<Rightarrow>
                      pdqsort nxt (fuel - 1) data (mid + 1) b limit
                        (leftLen \<ge> balanceThreshold) alreadyPartitioned)
               else
                 (case pdqsort nxt (fuel - 1) data (mid + 1) b limit True True of
                    None \<Rightarrow> None
                  | Some data \<Rightarrow>
                      pdqsort nxt (fuel - 1) data a mid limit
                        (rightLen \<ge> balanceThreshold) alreadyPartitioned)))"
  by pat_completeness auto
termination
  by (relation "measure (\<lambda>(nxt, fuel, data, a, b, limit, wb, wp). fuel)") auto

declare pdqsort.simps [simp del]

text \<open>
  \<^verbatim>\<open>func Sort(data Interface)\<close>:
  \<^verbatim>\<open>n := data.Len(); if n <= 1 { return }; limit := bits.Len(uint(n)); pdqsort(data, 0, n, limit)\<close>.
  Every pass of \<open>pdqsort\<close> shortens the range, so one more unit of fuel than there are
  elements is enough (\<open>Sort_returns\<close> below). \<open>go_sort\<close> is the slice that \<^verbatim>\<open>Sort\<close> leaves.
\<close>

definition Sort :: "(64 word \<Rightarrow> 64 word) \<Rightarrow> node list \<Rightarrow> node list option" where
  "Sort nxt data =
     (let n = length data in
      if n \<le> 1 then Some data
      else pdqsort nxt (Suc n) data 0 (int n) (bits_Len n) True True)"

definition go_sort :: "(64 word \<Rightarrow> 64 word) \<Rightarrow> node list \<Rightarrow> node list" where
  "go_sort nxt data = (case Sort nxt data of None \<Rightarrow> data | Some ordered \<Rightarrow> ordered)"

text \<open>
  A table on which the library's sort does not keep nodes of equal weight in their order:
  thirteen characters that occur once and one that occurs five times, visited as
  \<open>a, b, ..., n\<close>.
\<close>

definition tie_table :: "(rune \<times> 64 word) list" where
  "tie_table =
     [(97, 1), (98, 1), (99, 1), (100, 1), (101, 1), (102, 1), (103, 1), (104, 1),
      (105, 1), (106, 1), (107, 1), (108, 1), (109, 1), (110, 5)]"

section \<open>The stable sort meets the contract\<close>

lemma stable_sort_contract: "sort_contract stable_sort"
  unfolding sort_contract_def
proof (intro allI conjI impI)
  fix xs
  show "mset (stable_sort xs) = mset xs" by (simp add: stable_sort_def)
  fix j i assume j: "j < length xs" and i: "i < j"
  let ?ys = "stable_sort xs"
  have len: "length ?ys = length xs" by (simp add: stable_sort_def)
  have "sorted (map (\<lambda>n. sint (Freq n)) ?ys)" by (simp add: stable_sort_def)
  then have "sint (Freq (?ys ! i)) \<le> sint (Freq (?ys ! j))"
    using i j len by (auto simp: sorted_iff_nth_mono)
  then show "\<not> Less ?ys j i" by (simp add: Less_def word_sless_alt)
qed

section \<open>The merge loop returns a tree over the table's entries\<close>

lemma contract_mset: "sort_contract srt \<Longrightarrow> mset (srt xs) = mset xs"
  by (simp add: sort_contract_def)

lemma contract_length: "sort_contract srt \<Longrightarrow> length (srt xs) = length xs"
  by (metis contract_mset mset_eq_length)

lemma contract_set: "sort_contract srt \<Longrightarrow> set (srt xs) = set xs"
  by (metis contract_mset mset_eq_setD)

lemma leaf_pairs_parent [simp]: "leaf_pairs (parent_of l r) = leaf_pairs l @ leaf_pairs r"
  by (simp add: parent_of_def)

lemma split_first_two:
  assumes "1 < length nodes"
  shows "nodes = nodes ! 0 # nodes ! 1 # drop 2 nodes"
proof -
  obtain a b rest where "nodes = a # b # rest"
    using assms by (cases nodes; cases "tl nodes") auto
  then show ?thesis by simp
qed

lemma merge_step_mset:
  assumes "sort_contract srt"
  shows "mset (merge_step srt nodes) = mset (drop 2 nodes) + {#parent_of (nodes ! 0) (nodes ! 1)#}"
  by (simp add: merge_step_def contract_mset[OF assms])

lemma merge_step_length:
  assumes "sort_contract srt" "1 < length nodes"
  shows "Suc (length (merge_step srt nodes)) = length nodes"
  using assms by (simp add: merge_step_def contract_length)

lemma merge_step_leaf_mset:
  assumes "sort_contract srt" "1 < length nodes"
  shows "leaf_mset (merge_step srt nodes) = leaf_mset nodes"
proof -
  have "leaf_mset nodes = leaf_mset (nodes ! 0 # nodes ! 1 # drop 2 nodes)"
    using split_first_two[OF assms(2)] by simp
  then show ?thesis
    by (simp add: leaf_mset_def merge_step_mset[OF assms(1)])
qed

lemma merge_step_is_tree:
  assumes "sort_contract srt" "1 < length nodes" "\<forall>n\<in>set nodes. is_tree n"
  shows "\<forall>n\<in>set (merge_step srt nodes). is_tree n"
proof -
  have "nodes ! 0 \<in> set nodes" "nodes ! 1 \<in> set nodes"
    using assms(2) by (auto intro: nth_mem)
  then have "is_tree (nodes ! 0)" "is_tree (nodes ! 1)"
    using assms(3) by blast+
  then have "is_tree (parent_of (nodes ! 0) (nodes ! 1))" by (rule is_tree_parent)
  moreover have "set (drop 2 nodes) \<subseteq> set nodes" by (rule set_drop_subset)
  ultimately show ?thesis
    using assms(3) by (auto simp: merge_step_def contract_set[OF assms(1)])
qed

lemma merge_loop_returns:
  assumes "sort_contract srt"
  shows "nodes \<noteq> [] \<Longrightarrow> \<forall>n\<in>set nodes. is_tree n \<Longrightarrow>
    \<exists>root. merge_loop srt nodes = Some [root] \<and> is_tree root \<and>
      mset (leaf_pairs root) = leaf_mset nodes"
proof (induction "length nodes" arbitrary: nodes rule: less_induct)
  case less
  show ?case
  proof (cases "1 < length nodes")
    case True
    let ?next = "merge_step srt nodes"
    have "length ?next < length nodes" "?next \<noteq> []"
      using merge_step_length[OF assms True] True by auto
    with less.hyps[of ?next] merge_step_is_tree[OF assms True less.prems(2)]
    obtain root where "merge_loop srt ?next = Some [root]" "is_tree root"
      "mset (leaf_pairs root) = leaf_mset ?next" by blast
    then show ?thesis
      using True merge_step_leaf_mset[OF assms True]
      by (subst merge_loop.simps) simp
  next
    case False
    then obtain root where nodes: "nodes = [root]"
      using less.prems(1) by (cases nodes) auto
    then show ?thesis
      using less.prems(2) by (subst merge_loop.simps) (simp add: leaf_mset_def)
  qed
qed

lemma merge_loop_empty: "merge_loop srt [] = Some []"
  by (subst merge_loop.simps) simp

lemma leaf_nodes_is_tree: "\<forall>n\<in>set (leaf_nodes fs). is_tree n"
  by (auto simp: leaf_nodes_def intro: is_tree_leaf)

lemma leaf_mset_leaf_nodes: "leaf_mset (leaf_nodes fs) = mset fs"
  by (induction fs) (auto simp: leaf_mset_def leaf_nodes_def)

lemma leaf_mset_perm: "mset xs = mset ys \<Longrightarrow> leaf_mset xs = leaf_mset ys"
  by (simp add: leaf_mset_def)

lemma BuildHuffmanTree_returns:
  assumes "sort_contract srt" "fs \<noteq> []"
  shows "\<exists>root. BuildHuffmanTree srt fs = Some (Inr root) \<and> is_tree root \<and>
    mset (leaf_pairs root) = mset fs"
proof -
  let ?start = "srt (leaf_nodes fs)"
  have "?start \<noteq> []"
    using assms contract_length[OF assms(1), of "leaf_nodes fs"] by (auto simp: leaf_nodes_def)
  moreover have "\<forall>n\<in>set ?start. is_tree n"
    using leaf_nodes_is_tree by (simp add: contract_set[OF assms(1)])
  ultimately obtain root where "merge_loop srt ?start = Some [root]" "is_tree root"
    "mset (leaf_pairs root) = leaf_mset ?start"
    using merge_loop_returns[OF assms(1)] by blast
  moreover have "leaf_mset ?start = mset fs"
    using leaf_mset_perm[OF contract_mset[OF assms(1)]] leaf_mset_leaf_nodes by simp
  ultimately show ?thesis by (simp add: BuildHuffmanTree_def)
qed

lemma BuildHuffmanTree_empty:
  assumes "sort_contract srt"
  shows "BuildHuffmanTree srt [] = Some (Inl IndexOutOfRange)"
proof -
  have "srt (leaf_nodes []) = []"
    using contract_length[OF assms, of "[]"] by (simp add: leaf_nodes_def)
  then show ?thesis by (simp add: BuildHuffmanTree_def merge_loop_empty)
qed

section \<open>Shape and weights of a built tree\<close>

lemma is_tree_counts: "is_tree n \<Longrightarrow> Suc (internal_count n) = length (leaf_pairs n)"
  by (induction rule: is_tree.induct) (simp_all add: parent_of_def)

lemma is_tree_weights_ok: "is_tree n \<Longrightarrow> weights_ok n"
  by (induction rule: is_tree.induct) (simp_all add: parent_of_def)

lemma is_tree_weight: "is_tree n \<Longrightarrow> Freq n = sum_list (map snd (leaf_pairs n))"
  by (induction rule: is_tree.induct) (simp_all add: parent_of_def)

lemma sum_list_snd_perm:
  fixes xs ys :: "(rune \<times> 64 word) list"
  assumes "mset xs = mset ys"
  shows "sum_list (map snd xs) = sum_list (map snd ys)"
proof -
  have "sum_list (map snd xs) = sum_mset (image_mset snd (mset xs))"
    by (metis mset_map sum_mset_sum_list)
  also have "\<dots> = sum_mset (image_mset snd (mset ys))"
    by (simp only: assms)
  also have "\<dots> = sum_list (map snd ys)"
    by (metis mset_map sum_mset_sum_list)
  finally show ?thesis .
qed

lemma distinct_fst_perm:
  assumes "mset xs = mset ys" "distinct (map fst ys)"
  shows "distinct (map fst xs)"
proof -
  have "mset (map fst xs) = mset (map fst ys)"
    using assms(1) by (metis mset_map)
  then show ?thesis
    using assms(2) by (metis mset_eq_imp_distinct_iff)
qed

section \<open>Paths and the code book\<close>

lemma paths_parent:
  "paths (parent_of l r) =
     map (\<lambda>(a, bs). (a, 48 # bs)) (paths l) @ map (\<lambda>(a, bs). (a, 49 # bs)) (paths r)"
  by (simp add: parent_of_def)

lemma is_tree_shape:
  assumes "is_tree n"
  shows "(\<exists>c f. n = Node c f None None False) \<or> (\<exists>l r. n = parent_of l r \<and> is_tree l \<and> is_tree r)"
  using assms by (cases rule: is_tree.cases) auto

lemma paths_fst: "is_tree n \<Longrightarrow> map fst (paths n) = map fst (leaf_pairs n)"
  by (induction rule: is_tree.induct) (simp_all add: paths_parent case_prod_unfold comp_def)

lemma paths_parent_nonempty: "(c, bs) \<in> set (paths (parent_of l r)) \<Longrightarrow> bs \<noteq> []"
  by (auto simp: paths_parent)

lemma paths_parent_cases:
  assumes "(c, bs) \<in> set (paths (parent_of l r))"
  shows "(\<exists>bs'. bs = 48 # bs' \<and> (c, bs') \<in> set (paths l)) \<or>
    (\<exists>bs'. bs = 49 # bs' \<and> (c, bs') \<in> set (paths r))"
  using assms by (auto simp: paths_parent)

lemma bind_code_shift:
  "bind_code code \<circ> (\<lambda>(a, bs). (a, b # bs)) = bind_code (code @ [b])"
  by (auto simp: bind_code_def fun_eq_iff)

lemma BuildHuffmanCodes_fold:
  "is_tree n \<Longrightarrow> BuildHuffmanCodes (Some n) code codes = fold (bind_code code) (paths n) codes"
proof (induction arbitrary: code codes rule: is_tree.induct)
  case (is_tree_leaf c f)
  show ?case by (simp add: bind_code_def)
next
  case (is_tree_parent l r)
  have "BuildHuffmanCodes (Some (parent_of l r)) code codes =
      BuildHuffmanCodes (Some r) (code @ [49]) (BuildHuffmanCodes (Some l) (code @ [48]) codes)"
    by (simp add: parent_of_def)
  then show ?case
    by (simp add: is_tree_parent.IH paths_parent fold_map bind_code_shift)
qed

lemma fold_bind_other:
  "c \<notin> fst ` set ps \<Longrightarrow> fold (bind_code code) ps m c = m c"
  by (induction ps arbitrary: m) (auto simp: bind_code_def)

lemma fold_bind_in:
  "distinct (map fst ps) \<Longrightarrow> (c, bs) \<in> set ps \<Longrightarrow> fold (bind_code code) ps m c = Some (code @ bs)"
proof (induction ps arbitrary: m)
  case Nil
  then show ?case by simp
next
  case (Cons p ps)
  obtain a b where p: "p = (a, b)" by (cases p)
  show ?case
  proof (cases "(c, bs) = p")
    case True
    then have "c \<notin> fst ` set ps" using Cons.prems(1) p by force
    then show ?thesis
      using True p by (simp add: fold_bind_other) (simp add: bind_code_def)
  next
    case False
    then show ?thesis using Cons by simp
  qed
qed

lemma code_book:
  assumes "is_tree root" "distinct (map fst (leaf_pairs root))"
  shows "BuildHuffmanCodes (Some root) [] Map.empty c = Some bs \<longleftrightarrow> (c, bs) \<in> set (paths root)"
proof -
  let ?m = "fold (bind_code []) (paths root) Map.empty"
  have d: "distinct (map fst (paths root))"
    using assms by (simp add: paths_fst)
  have eq: "BuildHuffmanCodes (Some root) [] Map.empty = ?m"
    by (rule BuildHuffmanCodes_fold[OF assms(1)])
  show ?thesis
  proof
    assume "BuildHuffmanCodes (Some root) [] Map.empty c = Some bs"
    then have some: "?m c = Some bs" by (simp add: eq)
    then have "c \<in> fst ` set (paths root)"
      using fold_bind_other[of c "paths root" "[]" Map.empty] by fastforce
    then obtain bs' where in': "(c, bs') \<in> set (paths root)" by force
    then have "?m c = Some bs'" using fold_bind_in[OF d, of c bs' "[]"] by simp
    then show "(c, bs) \<in> set (paths root)" using some in' by simp
  next
    assume "(c, bs) \<in> set (paths root)"
    then show "BuildHuffmanCodes (Some root) [] Map.empty c = Some bs"
      using fold_bind_in[OF d, of c bs "[]"] by (simp add: eq)
  qed
qed

lemma code_book_dom:
  assumes "is_tree root" "distinct (map fst (leaf_pairs root))"
  shows "dom (BuildHuffmanCodes (Some root) [] Map.empty) = fst ` set (leaf_pairs root)"
proof -
  have "fst ` set (leaf_pairs root) = fst ` set (paths root)"
    using paths_fst[OF assms(1)] by (metis set_map)
  then show ?thesis
    using code_book[OF assms] by (force simp: dom_def)
qed

lemma paths_prefix_free:
  "is_tree n \<Longrightarrow> distinct (map fst (paths n)) \<Longrightarrow> (a, p) \<in> set (paths n) \<Longrightarrow>
     (b, q) \<in> set (paths n) \<Longrightarrow> prefix p q \<Longrightarrow> a = b"
proof (induction arbitrary: a b p q rule: is_tree.induct)
  case (is_tree_leaf c f)
  then show ?case by simp
next
  case (is_tree_parent l r)
  have dl: "distinct (map fst (paths l))" and dr: "distinct (map fst (paths r))"
    using is_tree_parent.prems(1) by (simp_all add: paths_parent case_prod_unfold comp_def)
  from paths_parent_cases[OF is_tree_parent.prems(2)] consider
    p' where "p = 48 # p'" "(a, p') \<in> set (paths l)" | p' where "p = 49 # p'" "(a, p') \<in> set (paths r)"
    by blast
  then show ?case
  proof cases
    case 1
    with paths_parent_cases[OF is_tree_parent.prems(3)] is_tree_parent.prems(4)
    obtain q' where "q = 48 # q'" "(b, q') \<in> set (paths l)" "prefix p' q'"
      by auto
    with 1 show ?thesis using is_tree_parent.IH(1)[OF dl] by blast
  next
    case 2
    with paths_parent_cases[OF is_tree_parent.prems(3)] is_tree_parent.prems(4)
    obtain q' where "q = 49 # q'" "(b, q') \<in> set (paths r)" "prefix p' q'"
      by auto
    with 2 show ?thesis using is_tree_parent.IH(2)[OF dr] by blast
  qed
qed

section \<open>The walk of the decoder\<close>

lemma decrypt_step_leaf:
  assumes "child = Node c f None None False"
    "(if b = 48 then Left cur else Right cur) = Some child"
  shows "decrypt_loop root (Some cur) (b # rest) out =
    decrypt_loop root root rest (out @ [string_of_rune c])"
  using assms by simp

lemma decrypt_step_parent:
  assumes "child = parent_of l r"
    "(if b = 48 then Left cur else Right cur) = Some child"
  shows "decrypt_loop root (Some cur) (b # rest) out = decrypt_loop root (Some child) rest out"
  using assms by (simp add: parent_of_def)

lemma decrypt_path:
  "is_tree n \<Longrightarrow> (c, bs) \<in> set (paths n) \<Longrightarrow> bs \<noteq> [] \<Longrightarrow>
     decrypt_loop root (Some n) (bs @ rest) out =
     decrypt_loop root root rest (out @ [string_of_rune c])"
proof (induction arbitrary: c bs rule: is_tree.induct)
  case (is_tree_leaf c' f)
  then show ?case by simp
next
  case (is_tree_parent l r)
  let ?n = "parent_of l r"
  from paths_parent_cases[OF is_tree_parent.prems(1)] consider
    bs' where "bs = 48 # bs'" "(c, bs') \<in> set (paths l)" | bs' where "bs = 49 # bs'" "(c, bs') \<in> set (paths r)"
    by blast
  then show ?case
  proof cases
    case 1
    have mv: "(if (48 :: rune) = 48 then Left ?n else Right ?n) = Some l"
      by (simp add: parent_of_def)
    from is_tree_shape[OF is_tree_parent.hyps(1)] show ?thesis
    proof (elim disjE exE conjE)
      fix c' f assume l: "l = Node c' f None None False"
      then have "c = c'" "bs' = []" using 1(2) by simp_all
      then show ?thesis
        using decrypt_step_leaf[OF l mv, of root rest out] 1(1) by simp
    next
      fix l1 r1 assume l: "l = parent_of l1 r1"
      then have ne: "bs' \<noteq> []" using 1(2) paths_parent_nonempty by blast
      show ?thesis
        using decrypt_step_parent[OF l mv, of root "bs' @ rest" out]
          is_tree_parent.IH(1)[OF 1(2) ne] 1(1) by simp
    qed
  next
    case 2
    have mv: "(if (49 :: rune) = 48 then Left ?n else Right ?n) = Some r"
      by (simp add: parent_of_def)
    from is_tree_shape[OF is_tree_parent.hyps(2)] show ?thesis
    proof (elim disjE exE conjE)
      fix c' f assume r: "r = Node c' f None None False"
      then have "c = c'" "bs' = []" using 2(2) by simp_all
      then show ?thesis
        using decrypt_step_leaf[OF r mv, of root rest out] 2(1) by simp
    next
      fix l1 r1 assume r: "r = parent_of l1 r1"
      then have ne: "bs' \<noteq> []" using 2(2) paths_parent_nonempty by blast
      show ?thesis
        using decrypt_step_parent[OF r mv, of root "bs' @ rest" out]
          is_tree_parent.IH(2)[OF 2(2) ne] 2(1) by simp
    qed
  qed
qed

lemma decrypt_partial_path:
  "is_tree n \<Longrightarrow> (c, bs @ tl_bits) \<in> set (paths n) \<Longrightarrow> tl_bits \<noteq> [] \<Longrightarrow>
     decrypt_loop root (Some n) bs out = Inr out"
proof (induction arbitrary: c bs rule: is_tree.induct)
  case (is_tree_leaf c' f)
  then show ?case by simp
next
  case (is_tree_parent l r)
  let ?n = "parent_of l r"
  show ?case
  proof (cases bs)
    case Nil
    then show ?thesis by simp
  next
    case (Cons b bs')
    with paths_parent_cases[OF is_tree_parent.prems(1)] consider
      "b = 48" "(c, bs' @ tl_bits) \<in> set (paths l)" | "b = 49" "(c, bs' @ tl_bits) \<in> set (paths r)"
      by auto
    then show ?thesis
    proof cases
      case 1
      have mv: "(if b = 48 then Left ?n else Right ?n) = Some l"
        using 1(1) by (simp add: parent_of_def)
      from is_tree_shape[OF is_tree_parent.hyps(1)] show ?thesis
      proof (elim disjE exE conjE)
        fix c' f assume "l = Node c' f None None False"
        then show ?thesis using 1(2) is_tree_parent.prems(2) by simp
      next
        fix l1 r1 assume l: "l = parent_of l1 r1"
        show ?thesis
          using decrypt_step_parent[OF l mv, of root bs' out]
            is_tree_parent.IH(1)[OF 1(2) is_tree_parent.prems(2)] Cons by simp
      qed
    next
      case 2
      have mv: "(if b = 48 then Left ?n else Right ?n) = Some r"
        using 2(1) by (simp add: parent_of_def)
      from is_tree_shape[OF is_tree_parent.hyps(2)] show ?thesis
      proof (elim disjE exE conjE)
        fix c' f assume "r = Node c' f None None False"
        then show ?thesis using 2(2) is_tree_parent.prems(2) by simp
      next
        fix l1 r1 assume r: "r = parent_of l1 r1"
        show ?thesis
          using decrypt_step_parent[OF r mv, of root bs' out]
            is_tree_parent.IH(2)[OF 2(2) is_tree_parent.prems(2)] Cons by simp
      qed
    qed
  qed
qed

section \<open>Encoding a stream and decoding it again\<close>

lemma encrypt_loop_total:
  "\<forall>c\<in>set s. codes c \<noteq> None \<Longrightarrow>
     encrypt_loop codes s acc = Inr (acc @ concat (map (\<lambda>c. the (codes c)) s))"
  by (induction s arbitrary: acc) auto

lemma encrypt_loop_unknown:
  "(\<forall>c\<in>set pre. codes c \<noteq> None) \<Longrightarrow> codes x = None \<Longrightarrow>
     encrypt_loop codes (pre @ x # post) acc = Inl (UnknownSymbol x)"
  by (induction pre arbitrary: acc) auto

lemma decrypt_stream:
  assumes "is_tree l" "is_tree r"
    "\<forall>c\<in>set s. \<exists>bs. codes c = Some bs \<and> (c, bs) \<in> set (paths (parent_of l r))"
  shows "decrypt_loop (Some (parent_of l r)) (Some (parent_of l r))
      (concat (map (\<lambda>c. the (codes c)) s) @ rest) out =
    decrypt_loop (Some (parent_of l r)) (Some (parent_of l r)) rest (out @ map string_of_rune s)"
  using assms(3)
proof (induction s arbitrary: out)
  case Nil
  then show ?case by simp
next
  case (Cons c s)
  let ?n = "parent_of l r"
  obtain bs where bs: "codes c = Some bs" "(c, bs) \<in> set (paths ?n)"
    using Cons.prems by auto
  have ne: "bs \<noteq> []" using bs(2) paths_parent_nonempty by blast
  have tree: "is_tree ?n" using assms(1,2) by (rule is_tree_parent)
  have "decrypt_loop (Some ?n) (Some ?n) (bs @ concat (map (\<lambda>c. the (codes c)) s) @ rest) out =
      decrypt_loop (Some ?n) (Some ?n) (concat (map (\<lambda>c. the (codes c)) s) @ rest)
        (out @ [string_of_rune c])"
    by (rule decrypt_path[OF tree bs(2) ne])
  then show ?case
    using Cons.IH[of "out @ [string_of_rune c]"] Cons.prems bs(1) by simp
qed

lemma map_string_of_rune: "\<forall>c\<in>set s. valid_rune c \<Longrightarrow> map string_of_rune s = s"
  by (induction s) (simp_all add: string_of_rune_def)

lemma dom_count_frequencies: "dom (count_frequencies s m) = dom m \<union> set s"
  by (induction s arbitrary: m) auto

lemma range_order_keys:
  assumes "range_order (count_frequencies s Map.empty) fs"
  shows "fst ` set fs = set s" "distinct (map fst fs)"
proof -
  have "dom (map_of fs) = set s"
    using assms by (simp add: range_order_def dom_count_frequencies)
  then show "fst ` set fs = set s" by (simp add: dom_map_of_conv_image_fst)
  show "distinct (map fst fs)" using assms by (simp add: range_order_def)
qed

lemma is_tree_two_leaves:
  assumes "is_tree root" "2 \<le> length (leaf_pairs root)"
  shows "\<exists>l r. root = parent_of l r \<and> is_tree l \<and> is_tree r"
  using is_tree_shape[OF assms(1)] assms(2) by auto

lemma encrypt_loop_Inr:
  "encrypt_loop codes s acc = Inr bits \<Longrightarrow> \<forall>c\<in>set s. codes c \<noteq> None"
  by (induction s arbitrary: acc) (auto split: option.splits)

lemma built_code_book:
  assumes "sort_contract srt" "distinct (map fst fs)" "BuildHuffmanTree srt fs = Some (Inr root)"
  shows "is_tree root" "mset (leaf_pairs root) = mset fs"
    "dom (BuildHuffmanCodes (Some root) [] Map.empty) = fst ` set fs"
    "BuildHuffmanCodes (Some root) [] Map.empty c = Some bs \<longleftrightarrow> (c, bs) \<in> set (paths root)"
    "distinct (map fst (paths root))"
proof -
  have ne: "fs \<noteq> []"
    using assms(3) BuildHuffmanTree_empty[OF assms(1)] by auto
  from BuildHuffmanTree_returns[OF assms(1) ne] assms(3)
  show tree: "is_tree root" and leaves: "mset (leaf_pairs root) = mset fs" by auto
  have d: "distinct (map fst (leaf_pairs root))"
    by (rule distinct_fst_perm[OF leaves assms(2)])
  have "set (leaf_pairs root) = set fs"
    by (rule mset_eq_setD[OF leaves])
  then show "dom (BuildHuffmanCodes (Some root) [] Map.empty) = fst ` set fs"
    using code_book_dom[OF tree d] by simp
  show "BuildHuffmanCodes (Some root) [] Map.empty c = Some bs \<longleftrightarrow> (c, bs) \<in> set (paths root)"
    by (rule code_book[OF tree d])
  show "distinct (map fst (paths root))"
    using d by (simp add: paths_fst[OF tree])
qed

section \<open>Reading and writing the files\<close>

lemma WriteFile_writable: "writable fsys name \<Longrightarrow>
    WriteFile fsys name content = Inr (fsys\<lparr>contents := (contents fsys)(name \<mapsto> content)\<rparr>)"
  by (simp add: WriteFile_def)

lemma EncryptFile_written:
  assumes "contents fsys inputFile = Some content" "encrypt_loop codes content [] = Inr bits"
    "writable fsys outputFile"
  shows "EncryptFile fsys inputFile outputFile codes =
    (None, fsys\<lparr>contents := (contents fsys)(outputFile \<mapsto> bits)\<rparr>)"
  using assms by (simp add: EncryptFile_def ReadFile_def WriteFile_def)

lemma DecryptFile_written:
  assumes "contents fsys inputFile = Some bits" "decrypt_loop root root bits [] = Inr content"
    "writable fsys outputFile"
  shows "DecryptFile fsys inputFile outputFile root =
    (None, fsys\<lparr>contents := (contents fsys)(outputFile \<mapsto> content)\<rparr>)"
  using assms by (simp add: DecryptFile_def ReadFile_def WriteFile_def)

lemma DecryptFile_panics:
  assumes "contents fsys inputFile = Some bits" "decrypt_loop root root bits [] = Inl e"
  shows "DecryptFile fsys inputFile outputFile root = (Some e, fsys)"
  using assms by (simp add: DecryptFile_def ReadFile_def)

lemma roundtrip_loops:
  assumes "sort_contract srt" "range_order (count_frequencies s Map.empty) fs"
    "2 \<le> card (set s)" "\<forall>c\<in>set s. valid_rune c"
  shows "\<exists>root bits. BuildHuffmanTree srt fs = Some (Inr root) \<and>
    encrypt_loop (BuildHuffmanCodes (Some root) [] Map.empty) s [] = Inr bits \<and>
    decrypt_loop (Some root) (Some root) bits [] = Inr s"
proof -
  note keys = range_order_keys[OF assms(2)]
  have "card (set s) = length fs"
    using keys distinct_card[OF keys(2)] by simp
  then have len: "2 \<le> length fs" using assms(3) by simp
  then have ne: "fs \<noteq> []" by auto
  obtain root where root: "BuildHuffmanTree srt fs = Some (Inr root)"
    using BuildHuffmanTree_returns[OF assms(1) ne] by blast
  note book = built_code_book[OF assms(1) keys(2) root]
  let ?codes = "BuildHuffmanCodes (Some root) [] Map.empty"
  have "2 \<le> length (leaf_pairs root)"
    using len mset_eq_length[OF book(2)] by simp
  then obtain l r where lr: "root = parent_of l r" "is_tree l" "is_tree r"
    using is_tree_two_leaves[OF book(1)] by blast
  have known: "\<forall>c\<in>set s. \<exists>bs. ?codes c = Some bs \<and> (c, bs) \<in> set (paths (parent_of l r))"
  proof
    fix c assume "c \<in> set s"
    then have "c \<in> dom ?codes" using book(3) keys(1) by simp
    then obtain bs where "?codes c = Some bs" by auto
    then show "\<exists>bs. ?codes c = Some bs \<and> (c, bs) \<in> set (paths (parent_of l r))"
      using book(4) lr(1) by auto
  qed
  let ?bits = "concat (map (\<lambda>c. the (?codes c)) s)"
  have enc: "encrypt_loop ?codes s [] = Inr ?bits"
    using encrypt_loop_total[of s ?codes "[]"] known by auto
  have "decrypt_loop (Some root) (Some root) ?bits [] = Inr (map string_of_rune s)"
    using decrypt_stream[OF lr(2,3) known, of "[]" "[]"] by (simp add: lr(1))
  then have "decrypt_loop (Some root) (Some root) ?bits [] = Inr s"
    by (simp add: map_string_of_rune[OF assms(4)])
  then show ?thesis using root enc by blast
qed

section \<open>Helper lemmas for the encoder, the decoder and the loop head\<close>

lemma EncryptFile_unknown:
  assumes "contents fsys inputFile = Some content" "encrypt_loop codes content [] = Inl e"
  shows "EncryptFile fsys inputFile outputFile codes = (Some e, fsys)"
  using assms by (simp add: EncryptFile_def ReadFile_def)

lemma first_unknown:
  assumes "\<exists>c\<in>set content. codes c = None"
  shows "\<exists>pre x post. content = pre @ x # post \<and> (\<forall>c\<in>set pre. codes c \<noteq> None) \<and> codes x = None"
proof -
  from assms obtain pre x post where "content = pre @ x # post" "codes x = None"
    "\<forall>c\<in>set pre. \<not> codes c = None"
    using split_list_first_prop[of content "\<lambda>c. codes c = None"] by blast
  then show ?thesis by blast
qed

lemma decrypt_loop_other_bits:
  "decrypt_loop root cur (map (\<lambda>b. if b = 48 then 48 else 49) bits) out =
     decrypt_loop root cur bits out"
  by (induction bits arbitrary: cur out) (simp_all split: option.splits)

lemma contract_sorted:
  assumes "sort_contract srt" "j < length (srt xs)" "i < j"
  shows "\<not> Less (srt xs) j i"
  using assms by (simp add: sort_contract_def contract_length[OF assms(1)])

lemma loop_head_sorted:
  assumes "sort_contract srt" "loop_head srt fs nodes" "j < length nodes" "i < j"
  shows "\<not> Less nodes j i"
proof -
  have "\<exists>xs. nodes = srt xs"
    using assms(2) by (cases rule: loop_head.cases) (auto simp: merge_step_def)
  then obtain xs where "nodes = srt xs" by blast
  then show ?thesis
    using contract_sorted[OF assms(1), of j xs i] assms(3,4) by simp
qed

lemma Less_irrefl: "\<not> Less nodes k k"
  by (simp add: Less_def)

lemma BuildHuffmanTree_single:
  assumes "sort_contract srt"
  shows "BuildHuffmanTree srt [(c, f)] = Some (Inr (Node c f None None False))"
proof -
  have "mset (srt (leaf_nodes [(c, f)])) = {#Node c f None None False#}"
    by (simp add: contract_mset[OF assms] leaf_nodes_def)
  then have "srt (leaf_nodes [(c, f)]) = [Node c f None None False]"
    by (simp add: mset_single_iff_right)
  then show ?thesis
    by (simp add: BuildHuffmanTree_def merge_loop.simps)
qed

lemma loop_head_on_run:
  "loop_head srt fs nodes \<Longrightarrow> merge_loop srt nodes = merge_loop srt (srt (leaf_nodes fs))"
proof (induction rule: loop_head.induct)
  case loop_head_first
  show ?case by simp
next
  case (loop_head_next nodes)
  have "merge_loop srt nodes = merge_loop srt (merge_step srt nodes)"
    using loop_head_next.hyps(2) by (subst merge_loop.simps) simp
  then show ?case using loop_head_next.IH by simp
qed

section \<open>The library's sort returns, and sorts short slices by insertion\<close>

lemma scan_less_bounds: "i \<le> scan_less data a i j \<and> scan_less data a i j \<le> max i (j + 1)"
  by (induction data a i j rule: scan_less.induct) (subst (1 2) scan_less.simps, auto)

lemma scan_not_less_bounds:
  "min j (i - 1) \<le> scan_not_less data a i j \<and> scan_not_less data a i j \<le> j"
  by (induction data a i j rule: scan_not_less.induct) (subst (1 2) scan_not_less.simps, auto)

lemma scan_not_greater_bounds:
  "i \<le> scan_not_greater data a i j \<and> scan_not_greater data a i j \<le> max i (j + 1)"
  by (induction data a i j rule: scan_not_greater.induct)
    (subst (1 2) scan_not_greater.simps, auto)

lemma scan_greater_bounds:
  "min j (i - 1) \<le> scan_greater data a i j \<and> scan_greater data a i j \<le> j"
  by (induction data a i j rule: scan_greater.induct) (subst (1 2) scan_greater.simps, auto)

lemma partition_loop_bounds:
  "min j (i - 1) \<le> snd (partition_loop data a i j) \<and> snd (partition_loop data a i j) \<le> j"
proof (induction data a i j rule: partition_loop.induct)
  case (1 data a i j)
  let ?i = "scan_less data a i j"
  let ?j = "scan_not_less data a ?i j"
  note bi = scan_less_bounds[where i = i and data = data and a = a and j = j]
  note bj = scan_not_less_bounds[where j = j and i = ?i and data = data and a = a]
  show ?case
  proof (cases "?i > ?j")
    case True
    then have "snd (partition_loop data a i j) = ?j"
      by (subst partition_loop.simps) (simp add: Let_def)
    then show ?thesis using bi bj by auto
  next
    case False
    then have eq: "snd (partition_loop data a i j) =
        snd (partition_loop (swap_at data ?i ?j) a (?i + 1) (?j - 1))"
      by (subst partition_loop.simps) (simp add: Let_def)
    have "min (?j - 1) (?i + 1 - 1) \<le> snd (partition_loop (swap_at data ?i ?j) a (?i + 1) (?j - 1)) \<and>
        snd (partition_loop (swap_at data ?i ?j) a (?i + 1) (?j - 1)) \<le> ?j - 1"
      using "1.IH"[OF refl refl] False by simp
    then show ?thesis using eq False bi bj by auto
  qed
qed

lemma equal_loop_bounds:
  "i \<le> snd (equal_loop data a i j) \<and> snd (equal_loop data a i j) \<le> max i (j + 1)"
proof (induction data a i j rule: equal_loop.induct)
  case (1 data a i j)
  let ?i = "scan_not_greater data a i j"
  let ?j = "scan_greater data a ?i j"
  note bi = scan_not_greater_bounds[where i = i and data = data and a = a and j = j]
  note bj = scan_greater_bounds[where j = j and i = ?i and data = data and a = a]
  show ?case
  proof (cases "?i > ?j")
    case True
    then have "snd (equal_loop data a i j) = ?i"
      by (subst equal_loop.simps) (simp add: Let_def)
    then show ?thesis using bi bj by auto
  next
    case False
    then have eq: "snd (equal_loop data a i j) =
        snd (equal_loop (swap_at data ?i ?j) a (?i + 1) (?j - 1))"
      by (subst equal_loop.simps) (simp add: Let_def)
    have "?i + 1 \<le> snd (equal_loop (swap_at data ?i ?j) a (?i + 1) (?j - 1)) \<and>
        snd (equal_loop (swap_at data ?i ?j) a (?i + 1) (?j - 1)) \<le> max (?i + 1) (?j - 1 + 1)"
      using "1.IH"[OF refl refl] False by simp
    then show ?thesis using eq False bi bj by auto
  qed
qed

lemma partition_bounds:
  assumes "a < b" "partition' data a b pivot = (data', mid, ap)"
  shows "a \<le> mid \<and> mid < b"
proof -
  let ?d = "swap_at data a pivot"
  let ?i = "scan_less ?d a (a + 1) (b - 1)"
  let ?j = "scan_not_less ?d a ?i (b - 1)"
  note bi = scan_less_bounds[where i = "a + 1" and data = ?d and a = a and j = "b - 1"]
  note bj = scan_not_less_bounds[where j = "b - 1" and i = ?i and data = ?d and a = a]
  show ?thesis
  proof (cases "?i > ?j")
    case True
    then have "mid = ?j" using assms(2) by (simp add: partition'_def Let_def)
    then show ?thesis using bi bj assms(1) by auto
  next
    case False
    then have "mid = snd (partition_loop (swap_at ?d ?i ?j) a (?i + 1) (?j - 1))"
      using assms(2) by (simp add: partition'_def Let_def split: prod.splits)
    then show ?thesis
      using False partition_loop_bounds[where i = "?i + 1" and j = "?j - 1" and data = "swap_at ?d ?i ?j" and a = a] bi bj assms(1)
      by auto
  qed
qed

lemma partitionEqual_bounds:
  assumes "a < b" "partitionEqual data a b pivot = (data', mid)"
  shows "a < mid \<and> mid \<le> b"
proof -
  have "mid = snd (equal_loop (swap_at data a pivot) a (a + 1) (b - 1))"
    using assms(2) by (simp add: partitionEqual_def)
  then show ?thesis
    using equal_loop_bounds[where i = "a + 1" and j = "b - 1" and data = "swap_at data a pivot" and a = a] assms(1) by auto
qed


lemma returns_if:
  "(c \<Longrightarrow> x \<noteq> None) \<Longrightarrow> (\<not> c \<Longrightarrow> y \<noteq> None) \<Longrightarrow> (if c then x else y) \<noteq> None"
  by simp

lemma returns_Let: "(\<And>x. x = v \<Longrightarrow> f x \<noteq> None) \<Longrightarrow> Let v f \<noteq> None"
  by simp

lemma returns_case_prod: "(\<And>x y. p = (x, y) \<Longrightarrow> f x y \<noteq> None) \<Longrightarrow> case_prod f p \<noteq> None"
  by (cases p) simp

lemma returns_case_option:
  "r \<noteq> None \<Longrightarrow> (\<And>d. r = Some d \<Longrightarrow> f d \<noteq> None) \<Longrightarrow>
     (case r of None \<Rightarrow> None | Some d \<Rightarrow> f d) \<noteq> None"
  by (cases r) simp_all

lemma pdqsort_returns:
  "nat (b - a) < fuel \<Longrightarrow> pdqsort nxt fuel data a b limit wb wp \<noteq> None"
proof (induction fuel arbitrary: data a b limit wb wp)
  case 0
  then show ?case by simp
next
  case (Suc fuel)
  show ?case
  proof (cases "b - a \<le> 12 \<or> limit = 0")
    case True
    then show ?thesis by (subst pdqsort.simps) auto
  next
    case False
    then have ab: "a < b" by simp
    have rec: "pdqsort nxt fuel d a' b' l x y \<noteq> None" if "a \<le> a'" "b' \<le> b" "b' - a' < b - a"
      for d a' b' l x y
    proof -
      have "nat (b' - a') < fuel" using Suc.prems that(3) ab by linarith
      then show ?thesis by (rule Suc.IH)
    qed
    have eq_case: "pdqsort nxt fuel d' mid b l x y \<noteq> None"
      if "partitionEqual d a b pivot = (d', mid)" for d d' pivot mid l x y
      using partitionEqual_bounds[OF ab that] by (intro rec) auto
    have part_left: "pdqsort nxt fuel d'' a mid l x y \<noteq> None"
      if "partition' d a b pivot = (d', mid, ap)" for d d' d'' pivot mid ap l x y
      using partition_bounds[OF ab that] by (intro rec) auto
    have part_right: "pdqsort nxt fuel d'' (mid + 1) b l x y \<noteq> None"
      if "partition' d a b pivot = (d', mid, ap)" for d d' d'' pivot mid ap l x y
      using partition_bounds[OF ab that] by (intro rec) auto
    have fuel: "Suc fuel \<noteq> 0" "Suc fuel - 1 = fuel" by simp_all
    show ?thesis
      apply (subst pdqsort.simps)
      apply (simp only: fuel if_False)
      apply (intro returns_if returns_Let returns_case_prod returns_case_option)
      subgoal by simp
      subgoal by simp
      subgoal by simp
      subgoal premises p by (rule eq_case[OF trans[OF p(14)[symmetric] p(15)]])
      subgoal premises p for x xa xb xc y xd xe xf xg xh ya xi xj yb xk yc
      proof -
        have "partition' xh a b xe = (xj, xk, yc)"
          using p(14,15,16) by simp
        then show ?thesis by (rule part_left)
      qed
      subgoal premises p for x xa xb xc y xd xe xf xg xh ya xi xj yb xk yc
      proof -
        have "partition' xh a b xe = (xj, xk, yc)"
          using p(14,15,16) by simp
        then show ?thesis by (rule part_right)
      qed
      subgoal premises p for x xa xb xc y xd xe xf xg xh ya xi xj yb xk yc
      proof -
        have "partition' xh a b xe = (xj, xk, yc)"
          using p(14,15,16) by simp
        then show ?thesis by (rule part_right)
      qed
      subgoal premises p for x xa xb xc y xd xe xf xg xh ya xi xj yb xk yc
      proof -
        have "partition' xh a b xe = (xj, xk, yc)"
          using p(14,15,16) by simp
        then show ?thesis by (rule part_left)
      qed
      done
  qed
qed

lemma go_sort_short:
  assumes "length data \<le> 12"
  shows "go_sort nxt data = insertionSort data 0 (int (length data))"
proof (cases "length data \<le> 1")
  case True
  then have "insertionSort data 0 (int (length data)) = data"
    by (simp add: insertionSort_def insertion_from.simps)
  then show ?thesis using True by (simp add: go_sort_def Sort_def)
next
  case False
  then show ?thesis
    using assms by (simp add: go_sort_def Sort_def Let_def pdqsort.simps)
qed

lemma go_sort_keeps_two_ties:
  "go_sort nxt (leaf_nodes [(97, 1), (98, 1)]) = leaf_nodes [(97, 1), (98, 1)]"
  by code_simp

lemma Sort_returns: "Sort nxt data = Some (go_sort nxt data)"
proof (cases "length data \<le> 1")
  case True
  then show ?thesis by (simp add: go_sort_def Sort_def)
next
  case False
  have "pdqsort nxt (Suc (length data)) data 0 (int (length data)) (bits_Len (length data))
      True True \<noteq> None"
    by (rule pdqsort_returns) simp
  then show ?thesis using False by (auto simp: go_sort_def Sort_def Let_def)
qed

section \<open>The claims\<close>

text \<open>
  C1. Let \<open>s\<close> be a stream of valid runes (what \<^verbatim>\<open>range\<close> over a string yields) with at
  least two distinct characters, \<open>fs\<close> any visit of its frequency table and \<open>srt\<close> any sort
  that meets the contract. Then \<open>BuildHuffmanTree\<close> returns a root, the loop of
  \<^verbatim>\<open>EncryptFile\<close> over \<open>s\<close> with the code book of that root yields a bit string, and the loop
  of \<^verbatim>\<open>DecryptFile\<close> over that bit string with the same root yields \<open>s\<close>; with the stream in
  the input file and both output files writable, \<open>EncryptFile\<close> followed by \<open>DecryptFile\<close>
  return no error and leave \<open>s\<close> in the decoder's output file.
\<close>

theorem roundtrip:
  assumes "sort_contract srt" "range_order (count_frequencies s Map.empty) fs"
    "2 \<le> card (set s)" "\<forall>c\<in>set s. valid_rune c"
    "contents fsys inputFile = Some s" "writable fsys encFile" "writable fsys decFile"
  shows "\<exists>root bits fs1 fs2. BuildHuffmanTree srt fs = Some (Inr root) \<and>
    encrypt_loop (BuildHuffmanCodes (Some root) [] Map.empty) s [] = Inr bits \<and>
    decrypt_loop (Some root) (Some root) bits [] = Inr s \<and>
    EncryptFile fsys inputFile encFile (BuildHuffmanCodes (Some root) [] Map.empty) = (None, fs1) \<and>
    DecryptFile fs1 encFile decFile (Some root) = (None, fs2) \<and>
    contents fs2 decFile = Some s"
proof -
  obtain root bits where rb: "BuildHuffmanTree srt fs = Some (Inr root)"
    "encrypt_loop (BuildHuffmanCodes (Some root) [] Map.empty) s [] = Inr bits"
    "decrypt_loop (Some root) (Some root) bits [] = Inr s"
    using roundtrip_loops[OF assms(1-4)] by blast
  let ?fs1 = "fsys\<lparr>contents := (contents fsys)(encFile \<mapsto> bits)\<rparr>"
  let ?fs2 = "?fs1\<lparr>contents := (contents ?fs1)(decFile \<mapsto> s)\<rparr>"
  have e: "EncryptFile fsys inputFile encFile (BuildHuffmanCodes (Some root) [] Map.empty) = (None, ?fs1)"
    by (rule EncryptFile_written[OF assms(5) rb(2) assms(6)])
  have d: "DecryptFile ?fs1 encFile decFile (Some root) = (None, ?fs2)"
    using DecryptFile_written[of ?fs1 encFile bits "Some root" s decFile] rb(3) assms(7)
    by simp
  have "contents ?fs2 decFile = Some s" by simp
  then show ?thesis using rb e d by blast
qed

theorem roundtrip_witness:
  "sort_contract stable_sort \<and>
   range_order (count_frequencies [97, 97, 97, 98, 98, 99] Map.empty) [(97, 3), (98, 2), (99, 1)] \<and>
   2 \<le> card (set [97 :: rune, 97, 97, 98, 98, 99]) \<and>
   valid_rune 97 \<and> valid_rune 98 \<and> valid_rune 99 \<and>
   (\<exists>root bits fs1 fs2.
      BuildHuffmanTree stable_sort [(97, 3), (98, 2), (99, 1)] = Some (Inr root) \<and>
      encrypt_loop (BuildHuffmanCodes (Some root) [] Map.empty) [97, 97, 97, 98, 98, 99] [] = Inr bits \<and>
      decrypt_loop (Some root) (Some root) bits [] = Inr [97, 97, 97, 98, 98, 99] \<and>
      EncryptFile \<lparr>contents = [''begin.txt'' \<mapsto> [97, 97, 97, 98, 98, 99]], writable = (\<lambda>name. True)\<rparr>
        ''begin.txt'' ''encrypted.txt'' (BuildHuffmanCodes (Some root) [] Map.empty) = (None, fs1) \<and>
      DecryptFile fs1 ''encrypted.txt'' ''decrypted.txt'' (Some root) = (None, fs2) \<and>
      contents fs2 ''decrypted.txt'' = Some [97, 97, 97, 98, 98, 99])"
proof -
  let ?s = "[97 :: rune, 97, 97, 98, 98, 99]"
  let ?fs = "[(97 :: rune, 3 :: 64 word), (98, 2), (99, 1)]"
  let ?fsys = "\<lparr>contents = [''begin.txt'' \<mapsto> ?s], writable = (\<lambda>name. True)\<rparr>"
  have order: "range_order (count_frequencies ?s Map.empty) ?fs"
    by (auto simp: range_order_def fun_eq_iff)
  have card: "2 \<le> card (set ?s)" by simp
  have valid: "valid_rune 97" "valid_rune 98" "valid_rune 99"
    by (simp_all add: valid_rune_def)
  then have valid_all: "\<forall>c\<in>set ?s. valid_rune c" by simp
  have files: "contents ?fsys ''begin.txt'' = Some ?s" "writable ?fsys ''encrypted.txt''"
    "writable ?fsys ''decrypted.txt''" by simp_all
  show ?thesis
    using stable_sort_contract order card valid
      roundtrip[OF stable_sort_contract order card valid_all files]
    by blast
qed

text \<open>
  C2. Two runs over the same text need not build the same tree, code book and output: the
  order in which \<^verbatim>\<open>range\<close> visits the frequency map is not fixed, and it decides between
  nodes of equal weight. Two runs over the text \<open>ab\<close>: its table \<open>{a: 1, b: 1}\<close> may be
  visited as \<open>a, b\<close> or as \<open>b, a\<close>. The first run builds the tree with \<open>a\<close> on the left, the codes \<open>a = 0\<close>,
  \<open>b = 1\<close> and the output \<open>01\<close>; the second builds the tree with \<open>b\<close> on the left, the codes
  \<open>a = 1\<close>, \<open>b = 0\<close> and the output \<open>10\<close>. The decoder of the second run reads the output of
  the first as \<open>ba\<close>. The sort is the same in both runs (on two nodes of equal weight no
  comparison ever asks for a swap).
\<close>

theorem two_runs_differ:
  "range_order (count_frequencies [97, 98] Map.empty) [(97, 1), (98, 1)] \<and>
   range_order (count_frequencies [97, 98] Map.empty) [(98, 1), (97, 1)] \<and>
   BuildHuffmanTree stable_sort [(97, 1), (98, 1)] =
     Some (Inr (Node 0 2 (Some (Node 97 1 None None False)) (Some (Node 98 1 None None False)) True)) \<and>
   BuildHuffmanTree stable_sort [(98, 1), (97, 1)] =
     Some (Inr (Node 0 2 (Some (Node 98 1 None None False)) (Some (Node 97 1 None None False)) True)) \<and>
   encrypt_loop (BuildHuffmanCodes
     (Some (Node 0 2 (Some (Node 97 1 None None False)) (Some (Node 98 1 None None False)) True))
     [] Map.empty) [97, 98] [] = Inr [48, 49] \<and>
   encrypt_loop (BuildHuffmanCodes
     (Some (Node 0 2 (Some (Node 98 1 None None False)) (Some (Node 97 1 None None False)) True))
     [] Map.empty) [97, 98] [] = Inr [49, 48] \<and>
   decrypt_loop
     (Some (Node 0 2 (Some (Node 98 1 None None False)) (Some (Node 97 1 None None False)) True))
     (Some (Node 0 2 (Some (Node 98 1 None None False)) (Some (Node 97 1 None None False)) True))
     [48, 49] [] = Inr [98, 97]"
proof -
  have orders: "range_order (count_frequencies [97, 98] Map.empty) [(97, 1), (98, 1)]"
    "range_order (count_frequencies [97, 98] Map.empty) [(98, 1), (97, 1)]"
    by (auto simp: range_order_def fun_eq_iff)
  have trees: "BuildHuffmanTree stable_sort [(97, 1), (98, 1)] =
     Some (Inr (Node 0 2 (Some (Node 97 1 None None False)) (Some (Node 98 1 None None False)) True))"
    "BuildHuffmanTree stable_sort [(98, 1), (97, 1)] =
     Some (Inr (Node 0 2 (Some (Node 98 1 None None False)) (Some (Node 97 1 None None False)) True))"
    by code_simp+
  have valid: "string_of_rune 97 = 97" "string_of_rune 98 = 98"
    by (simp_all add: string_of_rune_def valid_rune_def)
  show ?thesis
    using orders trees by (simp add: valid)
qed

text \<open>
  C3 (as the code has it). At the head of every pass of the loop, over every run with a
  sort that meets the contract, the working collection is in ascending order of weight, so
  the two nodes taken, \<^verbatim>\<open>nodes[0]\<close> and \<^verbatim>\<open>nodes[1]\<close>, are two of the smallest weight: no node
  is lighter than the first, and no other node is lighter than the second. The parent
  joins the rest of the collection and the whole is sorted again: what the next pass sees is
  a rearrangement of the rest and the parent in ascending order of weight, and the run goes
  on from there. Which of several nodes of equal weight comes first is whatever
  \<^verbatim>\<open>sort.Sort\<close> leaves.
\<close>

theorem merge_step_takes_two_smallest:
  assumes "sort_contract srt" "loop_head srt fs nodes" "1 < length nodes"
  shows "(\<forall>k<length nodes. \<not> Less nodes k 0) \<and>
    (\<forall>k<length nodes. 0 < k \<longrightarrow> \<not> Less nodes k 1) \<and>
    mset (merge_step srt nodes) = mset (drop 2 nodes) + {#parent_of (nodes ! 0) (nodes ! 1)#} \<and>
    (\<forall>j<length (merge_step srt nodes). \<forall>i<j. \<not> Less (merge_step srt nodes) j i) \<and>
    loop_head srt fs (merge_step srt nodes) \<and>
    merge_loop srt (srt (leaf_nodes fs)) = merge_loop srt (merge_step srt nodes)"
proof (intro conjI allI impI)
  fix k assume k: "k < length nodes"
  show "\<not> Less nodes k 0"
  proof (cases "k = 0")
    case True
    then show ?thesis by (simp add: Less_irrefl)
  next
    case False
    then show ?thesis using loop_head_sorted[OF assms(1,2) k, of 0] by simp
  qed
  assume pos: "0 < k"
  show "\<not> Less nodes k 1"
  proof (cases "k = 1")
    case True
    then show ?thesis by (simp add: Less_irrefl)
  next
    case False
    then show ?thesis using loop_head_sorted[OF assms(1,2) k, of 1] pos by simp
  qed
next
  show "mset (merge_step srt nodes) = mset (drop 2 nodes) + {#parent_of (nodes ! 0) (nodes ! 1)#}"
    by (rule merge_step_mset[OF assms(1)])
  show step: "loop_head srt fs (merge_step srt nodes)"
    using assms(2,3) by (rule loop_head_next)
  show "merge_loop srt (srt (leaf_nodes fs)) = merge_loop srt (merge_step srt nodes)"
    using loop_head_on_run[OF step] by simp
next
  fix j i assume "j < length (merge_step srt nodes)" "i < j"
  then show "\<not> Less (merge_step srt nodes) j i"
    unfolding merge_step_def by (rule contract_sorted[OF assms(1)])
qed

theorem merge_step_takes_two_smallest_witness:
  "sort_contract stable_sort \<and>
   loop_head stable_sort [(97, 3), (98, 2), (99, 1)]
     [Node 99 1 None None False, Node 98 2 None None False, Node 97 3 None None False] \<and>
   1 < length [Node 99 1 None None False, Node 98 2 None None False, Node 97 3 None None False] \<and>
   merge_step stable_sort
     [Node 99 1 None None False, Node 98 2 None None False, Node 97 3 None None False] =
     [Node 97 3 None None False,
      Node 0 3 (Some (Node 99 1 None None False)) (Some (Node 98 2 None None False)) True] \<and>
   \<not> Less [Node 99 1 None None False, Node 98 2 None None False, Node 97 3 None None False] 2 1 \<and>
   loop_head stable_sort [(97, 3), (98, 2), (99, 1)]
     [Node 97 3 None None False,
      Node 0 3 (Some (Node 99 1 None None False)) (Some (Node 98 2 None None False)) True]"
proof -
  let ?fs = "[(97 :: rune, 3 :: 64 word), (98, 2), (99, 1)]"
  let ?nodes = "[Node 99 1 None None False, Node 98 2 None None False, Node 97 3 None None False]"
  have "stable_sort (leaf_nodes ?fs) = ?nodes" by code_simp
  then have head: "loop_head stable_sort ?fs ?nodes"
    using loop_head_first[of stable_sort ?fs] by simp
  have len: "1 < length ?nodes" by simp
  note inst = merge_step_takes_two_smallest[OF stable_sort_contract head len]
  have step: "merge_step stable_sort ?nodes = [Node 97 3 None None False,
        Node 0 3 (Some (Node 99 1 None None False)) (Some (Node 98 2 None None False)) True]"
    by code_simp
  have "\<not> Less ?nodes 2 1" using inst by simp
  moreover have "loop_head stable_sort ?fs (merge_step stable_sort ?nodes)"
    using inst by blast
  ultimately show ?thesis
    using stable_sort_contract head len step by simp
qed

text \<open>
  C3, the claim as stated, fails: the order that \<^verbatim>\<open>sort.Sort\<close> gives to nodes of equal
  weight is not always their order in the working collection. Take the table of
  \<open>abcdefghijklmnnnnn\<close>, visited as \<open>a, b, ..., n\<close>. The first sort leaves the fourteen
  leaves as they are, and the first merge takes \<open>a\<close> and \<open>b\<close>. The working collection is then
  \<open>c, d, ..., m, n\<close> and the parent, thirteen nodes. The library's sort takes the node in
  the middle, \<open>i\<close>, for its pivot and swaps it to the front before it partitions, so the
  second merge takes \<open>i\<close> and \<open>d\<close>, where a stable order takes \<open>c\<close> and \<open>d\<close>. The tree differs
  from the one a stable order builds. The generator of \<^verbatim>\<open>breakPatterns\<close> is never asked.
\<close>

theorem library_sort_reorders_ties:
  "\<forall>nxt.
     go_sort nxt (leaf_nodes tie_table) = leaf_nodes tie_table \<and>
     loop_head (go_sort nxt) tie_table (leaf_nodes tie_table) \<and>
     map Char' (drop 2 (leaf_nodes tie_table) @
         [parent_of (leaf_nodes tie_table ! 0) (leaf_nodes tie_table ! 1)]) =
       [99, 100, 101, 102, 103, 104, 105, 106, 107, 108, 109, 110, 0] \<and>
     map Char' (merge_step (go_sort nxt) (leaf_nodes tie_table)) =
       [105, 100, 101, 102, 103, 104, 99, 106, 107, 108, 109, 0, 110] \<and>
     map Char' (merge_step stable_sort (leaf_nodes tie_table)) =
       [99, 100, 101, 102, 103, 104, 105, 106, 107, 108, 109, 0, 110] \<and>
     parent_of (merge_step (go_sort nxt) (leaf_nodes tie_table) ! 0)
         (merge_step (go_sort nxt) (leaf_nodes tie_table) ! 1) =
       Node 0 2 (Some (Node 105 1 None None False)) (Some (Node 100 1 None None False)) True \<and>
     BuildHuffmanTree (go_sort nxt) tie_table \<noteq> BuildHuffmanTree stable_sort tie_table"
proof (intro allI conjI)
  fix nxt :: "64 word \<Rightarrow> 64 word"
  show first: "go_sort nxt (leaf_nodes tie_table) = leaf_nodes tie_table"
    by code_simp
  show "loop_head (go_sort nxt) tie_table (leaf_nodes tie_table)"
    using loop_head_first[of "go_sort nxt" tie_table] by (simp only: first)
  show "map Char' (drop 2 (leaf_nodes tie_table) @
         [parent_of (leaf_nodes tie_table ! 0) (leaf_nodes tie_table ! 1)]) =
       [99, 100, 101, 102, 103, 104, 105, 106, 107, 108, 109, 110, 0]"
    by code_simp
  show "map Char' (merge_step (go_sort nxt) (leaf_nodes tie_table)) =
       [105, 100, 101, 102, 103, 104, 99, 106, 107, 108, 109, 0, 110]"
    by code_simp
  show "map Char' (merge_step stable_sort (leaf_nodes tie_table)) =
       [99, 100, 101, 102, 103, 104, 105, 106, 107, 108, 109, 0, 110]"
    by code_simp
  show "parent_of (merge_step (go_sort nxt) (leaf_nodes tie_table) ! 0)
         (merge_step (go_sort nxt) (leaf_nodes tie_table) ! 1) =
       Node 0 2 (Some (Node 105 1 None None False)) (Some (Node 100 1 None None False)) True"
    by code_simp
  show "BuildHuffmanTree (go_sort nxt) tie_table \<noteq> BuildHuffmanTree stable_sort tie_table"
    by code_simp
qed

text \<open>
  C4 (as the code has it). For every sort that meets the contract, \<open>BuildHuffmanTree\<close>
  returns a root when the table has an entry, and on the empty table it panics on
  \<^verbatim>\<open>nodes[0]\<close> with an index out of range: no construction error is signalled.
\<close>

theorem BuildHuffmanTree_root_or_panic:
  assumes "sort_contract srt"
  shows "(fs \<noteq> [] \<longrightarrow> (\<exists>root. BuildHuffmanTree srt fs = Some (Inr root))) \<and>
    (fs = [] \<longrightarrow> BuildHuffmanTree srt fs = Some (Inl IndexOutOfRange))"
  using BuildHuffmanTree_returns[OF assms, of fs] BuildHuffmanTree_empty[OF assms] by blast

theorem BuildHuffmanTree_root_or_panic_witness:
  "sort_contract stable_sort \<and>
   (\<exists>root. BuildHuffmanTree stable_sort [(97, 3), (98, 2), (99, 1)] = Some (Inr root)) \<and>
   BuildHuffmanTree stable_sort [] = Some (Inl IndexOutOfRange)"
  using stable_sort_contract
    BuildHuffmanTree_root_or_panic[OF stable_sort_contract, of "[(97, 3), (98, 2), (99, 1)]"]
    BuildHuffmanTree_root_or_panic[OF stable_sort_contract, of "[]"]
  by simp

text \<open>
  C4, the claim as stated, fails: on the empty table the run ends in a panic.
\<close>

theorem BuildHuffmanTree_empty_table_panics:
  "\<exists>e. BuildHuffmanTree stable_sort [] = Some (Inl e) \<and> is_panic e"
proof -
  have "BuildHuffmanTree stable_sort [] = Some (Inl IndexOutOfRange)"
    by code_simp
  then show ?thesis by simp
qed

text \<open>
  C5 (as the code has it). Take the tree and code book built from a table, the bit string
  \<open>bits\<close> that the loop of \<^verbatim>\<open>EncryptFile\<close> yields for a stream \<open>s\<close> of valid runes, and a
  non-empty \<open>part\<close> that is the start of some character's code but not the whole code.
  Decoding \<open>bits\<close> followed by \<open>part\<close> ends with the cursor inside the tree, and the decoder
  reports nothing: its loop yields \<open>s\<close>, and \<open>DecryptFile\<close> writes \<open>s\<close> to the output file
  and returns no error. The unfinished code at the end is dropped.
\<close>

theorem truncated_stream_not_reported:
  assumes "sort_contract srt" "distinct (map fst fs)"
    "BuildHuffmanTree srt fs = Some (Inr root)"
    "encrypt_loop (BuildHuffmanCodes (Some root) [] Map.empty) s [] = Inr bits"
    "\<forall>c\<in>set s. valid_rune c"
    "BuildHuffmanCodes (Some root) [] Map.empty x = Some (part @ missing)"
    "part \<noteq> []" "missing \<noteq> []"
    "contents fsys inputFile = Some (bits @ part)" "writable fsys outputFile"
  shows "decrypt_loop (Some root) (Some root) (bits @ part) [] = Inr s \<and>
    DecryptFile fsys inputFile outputFile (Some root) =
      (None, fsys\<lparr>contents := (contents fsys)(outputFile \<mapsto> s)\<rparr>)"
proof -
  let ?codes = "BuildHuffmanCodes (Some root) [] Map.empty"
  note book = built_code_book[OF assms(1,2,3)]
  have path: "(x, part @ missing) \<in> set (paths root)"
    using assms(6) book(4) by simp
  from is_tree_shape[OF book(1)] obtain l r where lr: "root = parent_of l r" "is_tree l" "is_tree r"
    using path assms(8) by auto
  have known: "\<forall>c\<in>set s. \<exists>bs. ?codes c = Some bs \<and> (c, bs) \<in> set (paths (parent_of l r))"
  proof
    fix c assume "c \<in> set s"
    then have "?codes c \<noteq> None" using encrypt_loop_Inr[OF assms(4)] by blast
    then obtain bs where "?codes c = Some bs" by auto
    then show "\<exists>bs. ?codes c = Some bs \<and> (c, bs) \<in> set (paths (parent_of l r))"
      using book(4) lr(1) by auto
  qed
  have all: "\<forall>c\<in>set s. ?codes c \<noteq> None" by (rule encrypt_loop_Inr[OF assms(4)])
  have bits: "bits = concat (map (\<lambda>c. the (?codes c)) s)"
    using encrypt_loop_total[OF all, of "[]"] assms(4) by simp
  have "decrypt_loop (Some root) (Some root) (bits @ part) [] =
      decrypt_loop (Some root) (Some root) part (map string_of_rune s)"
    using decrypt_stream[OF lr(2,3) known, of part "[]"] by (simp add: lr(1) bits)
  also have "\<dots> = Inr (map string_of_rune s)"
    by (rule decrypt_partial_path[OF book(1) path assms(8)])
  finally have walk: "decrypt_loop (Some root) (Some root) (bits @ part) [] = Inr s"
    by (simp add: map_string_of_rune[OF assms(5)])
  then show ?thesis
    using DecryptFile_written[OF assms(9) walk assms(10)] by simp
qed

theorem truncated_stream_not_reported_witness:
  "sort_contract stable_sort \<and> distinct (map fst [(97 :: rune, 2 :: 64 word), (98, 1), (99, 1)]) \<and>
   BuildHuffmanTree stable_sort [(97, 2), (98, 1), (99, 1)] =
     Some (Inr (Node 0 4 (Some (Node 97 2 None None False))
       (Some (Node 0 2 (Some (Node 98 1 None None False)) (Some (Node 99 1 None None False)) True))
       True)) \<and>
   encrypt_loop (BuildHuffmanCodes (Some (Node 0 4 (Some (Node 97 2 None None False))
       (Some (Node 0 2 (Some (Node 98 1 None None False)) (Some (Node 99 1 None None False)) True))
       True)) [] Map.empty) [97, 97, 98] [] = Inr [48, 48, 49, 48] \<and>
   BuildHuffmanCodes (Some (Node 0 4 (Some (Node 97 2 None None False))
       (Some (Node 0 2 (Some (Node 98 1 None None False)) (Some (Node 99 1 None None False)) True))
       True)) [] Map.empty 99 = Some ([49] @ [49]) \<and>
   decrypt_loop (Some (Node 0 4 (Some (Node 97 2 None None False))
       (Some (Node 0 2 (Some (Node 98 1 None None False)) (Some (Node 99 1 None None False)) True))
       True)) (Some (Node 0 4 (Some (Node 97 2 None None False))
       (Some (Node 0 2 (Some (Node 98 1 None None False)) (Some (Node 99 1 None None False)) True))
       True)) ([48, 48, 49, 48] @ [49]) [] = Inr [97, 97, 98]"
proof -
  let ?fs = "[(97 :: rune, 2 :: 64 word), (98, 1), (99, 1)]"
  let ?t = "Node 0 4 (Some (Node 97 2 None None False))
       (Some (Node 0 2 (Some (Node 98 1 None None False)) (Some (Node 99 1 None None False)) True))
       True"
  let ?fsys = "\<lparr>contents = [''encrypted.txt'' \<mapsto> [48 :: rune, 48, 49, 48] @ [49]],
    writable = (\<lambda>name. True)\<rparr>"
  have d: "distinct (map fst ?fs)" by simp
  have tree: "BuildHuffmanTree stable_sort ?fs = Some (Inr ?t)" by code_simp
  have enc: "encrypt_loop (BuildHuffmanCodes (Some ?t) [] Map.empty) [97, 97, 98] []
      = Inr [48, 48, 49, 48]"
    by simp
  have valid: "\<forall>c\<in>set [97 :: rune, 97, 98]. valid_rune c"
    by (simp add: valid_rune_def)
  have code: "BuildHuffmanCodes (Some ?t) [] Map.empty 99 = Some ([49] @ [49])" by simp
  have ne: "[49 :: rune] \<noteq> []" by simp
  have input: "contents ?fsys ''encrypted.txt'' = Some ([48, 48, 49, 48] @ [49])"
    "writable ?fsys ''decrypted.txt''" by simp_all
  from truncated_stream_not_reported[OF stable_sort_contract d tree enc valid code ne ne input]
  have "decrypt_loop (Some ?t) (Some ?t) ([48, 48, 49, 48] @ [49]) [] = Inr [97, 97, 98]"
    by (rule conjunct1)
  then show ?thesis
    using stable_sort_contract d tree enc code by blast
qed

text \<open>
  C5, the claim as stated, fails. The tree of the table \<open>{a: 2, b: 1, c: 1}\<close> gives the
  codes \<open>a = 0\<close>, \<open>b = 10\<close>, \<open>c = 11\<close>; the stream \<open>aabc\<close> encodes to \<open>001011\<close>. With the last
  bit removed, \<open>DecryptFile\<close> returns no error and writes \<open>aab\<close>.
\<close>

theorem truncated_stream_decodes_without_error:
  "BuildHuffmanTree stable_sort [(97, 2), (98, 1), (99, 1)] =
     Some (Inr (Node 0 4 (Some (Node 97 2 None None False))
       (Some (Node 0 2 (Some (Node 98 1 None None False)) (Some (Node 99 1 None None False)) True))
       True)) \<and>
   encrypt_loop (BuildHuffmanCodes (Some (Node 0 4 (Some (Node 97 2 None None False))
       (Some (Node 0 2 (Some (Node 98 1 None None False)) (Some (Node 99 1 None None False)) True))
       True)) [] Map.empty) [97, 97, 98, 99] [] = Inr [48, 48, 49, 48, 49, 49] \<and>
   DecryptFile \<lparr>contents = [''encrypted.txt'' \<mapsto> [48, 48, 49, 48, 49]], writable = (\<lambda>name. True)\<rparr>
     ''encrypted.txt'' ''decrypted.txt''
     (Some (Node 0 4 (Some (Node 97 2 None None False))
       (Some (Node 0 2 (Some (Node 98 1 None None False)) (Some (Node 99 1 None None False)) True))
       True)) =
     (None, \<lparr>contents = [''encrypted.txt'' \<mapsto> [48, 48, 49, 48, 49],
                          ''decrypted.txt'' \<mapsto> [97, 97, 98]],
             writable = (\<lambda>name. True)\<rparr>)"
proof -
  let ?t = "Node 0 4 (Some (Node 97 2 None None False))
       (Some (Node 0 2 (Some (Node 98 1 None None False)) (Some (Node 99 1 None None False)) True))
       True"
  have tree: "BuildHuffmanTree stable_sort [(97, 2), (98, 1), (99, 1)] = Some (Inr ?t)"
    by code_simp
  have enc: "encrypt_loop (BuildHuffmanCodes (Some ?t) [] Map.empty) [97, 97, 98, 99] []
      = Inr [48, 48, 49, 48, 49, 49]"
    by simp
  have valid: "string_of_rune 97 = 97" "string_of_rune 98 = 98"
    by (simp_all add: string_of_rune_def valid_rune_def)
  have dec: "decrypt_loop (Some ?t) (Some ?t) [48, 48, 49, 48, 49] [] = Inr [97, 97, 98]"
    by (simp add: valid)
  have "DecryptFile \<lparr>contents = [''encrypted.txt'' \<mapsto> [48, 48, 49, 48, 49]], writable = (\<lambda>name. True)\<rparr>
      ''encrypted.txt'' ''decrypted.txt'' (Some ?t) =
     (None, \<lparr>contents = [''encrypted.txt'' \<mapsto> [48, 48, 49, 48, 49],
                          ''decrypted.txt'' \<mapsto> [97, 97, 98]],
             writable = (\<lambda>name. True)\<rparr>)"
    using dec by (simp add: DecryptFile_def ReadFile_def WriteFile_def)
  then show ?thesis using tree enc by blast
qed

text \<open>
  C6. With the input file read, \<open>EncryptFile\<close> returns the unknown-symbol error exactly when
  some character of the stream has no entry in the code book: the error names the first
  such character, and the file system is left as it was, the output file not written. When
  every character has an entry, the output file receives the codes of the characters joined
  in the order of the stream and no error is returned; if that file cannot be written, the
  error is the write error.
\<close>

theorem EncryptFile_unknown_symbol:
  assumes "contents fsys inputFile = Some content"
  shows "((\<exists>c\<in>set content. codes c = None) \<longrightarrow>
      (\<exists>pre x post. content = pre @ x # post \<and> (\<forall>c\<in>set pre. codes c \<noteq> None) \<and>
         codes x = None \<and>
         EncryptFile fsys inputFile outputFile codes = (Some (UnknownSymbol x), fsys))) \<and>
    ((\<forall>c\<in>set content. codes c \<noteq> None) \<longrightarrow>
      EncryptFile fsys inputFile outputFile codes =
        (if writable fsys outputFile
         then (None, fsys\<lparr>contents := (contents fsys)
                 (outputFile \<mapsto> concat (map (\<lambda>c. the (codes c)) content))\<rparr>)
         else (Some WriteError, fsys)))"
proof (intro conjI impI)
  assume "\<exists>c\<in>set content. codes c = None"
  from first_unknown[OF this] obtain pre x post where split: "content = pre @ x # post"
    "\<forall>c\<in>set pre. codes c \<noteq> None" "codes x = None"
    by blast
  have "encrypt_loop codes content [] = Inl (UnknownSymbol x)"
    unfolding split(1) by (rule encrypt_loop_unknown[OF split(2,3)])
  then have "EncryptFile fsys inputFile outputFile codes = (Some (UnknownSymbol x), fsys)"
    by (rule EncryptFile_unknown[OF assms])
  then show "\<exists>pre x post. content = pre @ x # post \<and> (\<forall>c\<in>set pre. codes c \<noteq> None) \<and>
      codes x = None \<and>
      EncryptFile fsys inputFile outputFile codes = (Some (UnknownSymbol x), fsys)"
    using split by blast
next
  assume "\<forall>c\<in>set content. codes c \<noteq> None"
  then have "encrypt_loop codes content [] = Inr (concat (map (\<lambda>c. the (codes c)) content))"
    using encrypt_loop_total[of content codes "[]"] by simp
  then show "EncryptFile fsys inputFile outputFile codes =
      (if writable fsys outputFile
       then (None, fsys\<lparr>contents := (contents fsys)
               (outputFile \<mapsto> concat (map (\<lambda>c. the (codes c)) content))\<rparr>)
       else (Some WriteError, fsys))"
    using assms by (simp add: EncryptFile_def ReadFile_def WriteFile_def)
qed

theorem EncryptFile_unknown_symbol_witness:
  "contents \<lparr>contents = [''begin.txt'' \<mapsto> [97, 120, 98]], writable = (\<lambda>name. True)\<rparr> ''begin.txt''
     = Some [97, 120, 98] \<and>
   EncryptFile \<lparr>contents = [''begin.txt'' \<mapsto> [97, 120, 98]], writable = (\<lambda>name. True)\<rparr>
     ''begin.txt'' ''encrypted.txt'' [97 \<mapsto> [48], 98 \<mapsto> [49]]
     = (Some (UnknownSymbol 120),
        \<lparr>contents = [''begin.txt'' \<mapsto> [97, 120, 98]], writable = (\<lambda>name. True)\<rparr>) \<and>
   EncryptFile \<lparr>contents = [''begin.txt'' \<mapsto> [97, 120, 98]], writable = (\<lambda>name. True)\<rparr>
     ''begin.txt'' ''encrypted.txt'' [97 \<mapsto> [48], 98 \<mapsto> [49, 48], 120 \<mapsto> [49, 49]]
     = (None, \<lparr>contents = [''begin.txt'' \<mapsto> [97, 120, 98],
                            ''encrypted.txt'' \<mapsto> [48, 49, 49, 49, 48]],
               writable = (\<lambda>name. True)\<rparr>)"
proof -
  let ?fsys = "\<lparr>contents = [''begin.txt'' \<mapsto> [97 :: rune, 120, 98]], writable = (\<lambda>name. True)\<rparr>"
  have input: "contents ?fsys ''begin.txt'' = Some [97, 120, 98]" by simp
  have miss: "\<exists>c\<in>set [97 :: rune, 120, 98]. [97 \<mapsto> [48 :: rune], 98 \<mapsto> [49]] c = None"
    by simp
  have full: "\<forall>c\<in>set [97 :: rune, 120, 98].
      [97 \<mapsto> [48 :: rune], 98 \<mapsto> [49, 48], 120 \<mapsto> [49, 49]] c \<noteq> None"
    by simp
  from EncryptFile_unknown_symbol[OF input, of "[97 \<mapsto> [48], 98 \<mapsto> [49]]" "''encrypted.txt''"] miss
  obtain x where "EncryptFile ?fsys ''begin.txt'' ''encrypted.txt'' [97 \<mapsto> [48], 98 \<mapsto> [49]]
      = (Some (UnknownSymbol x), ?fsys)"
    by blast
  moreover have "fst (EncryptFile ?fsys ''begin.txt'' ''encrypted.txt'' [97 \<mapsto> [48], 98 \<mapsto> [49]])
      = Some (UnknownSymbol 120)"
    by (simp add: EncryptFile_def ReadFile_def)
  ultimately have a: "EncryptFile ?fsys ''begin.txt'' ''encrypted.txt'' [97 \<mapsto> [48], 98 \<mapsto> [49]]
      = (Some (UnknownSymbol 120), ?fsys)"
    by simp
  from EncryptFile_unknown_symbol[OF input,
      of "[97 \<mapsto> [48], 98 \<mapsto> [49, 48], 120 \<mapsto> [49, 49]]" "''encrypted.txt''"] full
  have b: "EncryptFile ?fsys ''begin.txt'' ''encrypted.txt''
      [97 \<mapsto> [48], 98 \<mapsto> [49, 48], 120 \<mapsto> [49, 49]]
      = (None, \<lparr>contents = [''begin.txt'' \<mapsto> [97, 120, 98],
                            ''encrypted.txt'' \<mapsto> [48, 49, 49, 49, 48]],
               writable = (\<lambda>name. True)\<rparr>)"
    by simp
  show ?thesis using input a b by blast
qed

text \<open>
  C7. For every sort that meets the contract and every visit \<open>fs\<close> of a non-empty table,
  the code book that \<open>BuildHuffmanCodes\<close> derives from the tree of \<open>BuildHuffmanTree\<close> has
  one code for each character of the table and for no other rune, and the code of one
  character is never a prefix of the code of another (proper or not).
\<close>

theorem codes_prefix_free:
  assumes "sort_contract srt" "fs \<noteq> []" "distinct (map fst fs)"
  shows "\<exists>root. BuildHuffmanTree srt fs = Some (Inr root) \<and>
    dom (BuildHuffmanCodes (Some root) [] Map.empty) = fst ` set fs \<and>
    (\<forall>a b p q. BuildHuffmanCodes (Some root) [] Map.empty a = Some p \<longrightarrow>
       BuildHuffmanCodes (Some root) [] Map.empty b = Some q \<longrightarrow> a \<noteq> b \<longrightarrow> \<not> prefix p q)"
proof -
  obtain root where root: "BuildHuffmanTree srt fs = Some (Inr root)"
    using BuildHuffmanTree_returns[OF assms(1,2)] by blast
  note book = built_code_book[OF assms(1,3) root]
  have "a = b" if "BuildHuffmanCodes (Some root) [] Map.empty a = Some p"
    "BuildHuffmanCodes (Some root) [] Map.empty b = Some q" "prefix p q" for a b p q
    using that paths_prefix_free[OF book(1) book(5), of a p b q] by (simp add: book(4))
  then show ?thesis using root book(3) by blast
qed

theorem codes_prefix_free_witness:
  "sort_contract stable_sort \<and> [(97, 3), (98, 2), (99, 1)] \<noteq> ([] :: (rune \<times> 64 word) list) \<and>
   distinct (map fst [(97 :: rune, 3 :: 64 word), (98, 2), (99, 1)]) \<and>
   (\<exists>root. BuildHuffmanTree stable_sort [(97, 3), (98, 2), (99, 1)] = Some (Inr root) \<and>
      BuildHuffmanCodes (Some root) [] Map.empty 97 = Some [48] \<and>
      BuildHuffmanCodes (Some root) [] Map.empty 98 = Some [49, 49] \<and>
      BuildHuffmanCodes (Some root) [] Map.empty 99 = Some [49, 48] \<and>
      dom (BuildHuffmanCodes (Some root) [] Map.empty) = {97, 98, 99} \<and>
      \<not> prefix [48 :: rune] [49, 49])"
proof -
  let ?fs = "[(97 :: rune, 3 :: 64 word), (98, 2), (99, 1)]"
  let ?t = "Node 0 6 (Some (Node 97 3 None None False))
       (Some (Node 0 3 (Some (Node 99 1 None None False)) (Some (Node 98 2 None None False)) True))
       True"
  have tree: "BuildHuffmanTree stable_sort ?fs = Some (Inr ?t)"
    by code_simp
  have codes: "BuildHuffmanCodes (Some ?t) [] Map.empty 97 = Some [48]"
    "BuildHuffmanCodes (Some ?t) [] Map.empty 98 = Some [49, 49]"
    "BuildHuffmanCodes (Some ?t) [] Map.empty 99 = Some [49, 48]"
    by simp_all
  have hyps: "?fs \<noteq> []" "distinct (map fst ?fs)" by simp_all
  from codes_prefix_free[OF stable_sort_contract hyps] tree
  have "dom (BuildHuffmanCodes (Some ?t) [] Map.empty) = fst ` set ?fs \<and>
    \<not> prefix [48 :: rune] [49, 49]"
    using codes by fastforce
  then show ?thesis
    using stable_sort_contract tree codes by simp
qed

text \<open>
  C8. For every sort that meets the contract and every table with an entry, in the tree
  that \<open>BuildHuffmanTree\<close> returns every node that is no leaf has two children whose
  weights add up to its own, and the weight of the root is the sum of the frequencies of
  the table (in the arithmetic of Go's \<^verbatim>\<open>int\<close>).
\<close>

theorem BuildHuffmanTree_weights:
  assumes "sort_contract srt" "fs \<noteq> []"
  shows "\<exists>root. BuildHuffmanTree srt fs = Some (Inr root) \<and> weights_ok root \<and>
    Freq root = sum_list (map snd fs)"
proof -
  obtain root where root: "BuildHuffmanTree srt fs = Some (Inr root)" "is_tree root"
    "mset (leaf_pairs root) = mset fs"
    using BuildHuffmanTree_returns[OF assms] by blast
  have "Freq root = sum_list (map snd (leaf_pairs root))"
    by (rule is_tree_weight[OF root(2)])
  also have "\<dots> = sum_list (map snd fs)"
    by (rule sum_list_snd_perm[OF root(3)])
  finally show ?thesis
    using root(1) is_tree_weights_ok[OF root(2)] by simp
qed

theorem BuildHuffmanTree_weights_witness:
  "sort_contract stable_sort \<and> [(97, 3), (98, 2), (99, 1)] \<noteq> ([] :: (rune \<times> 64 word) list) \<and>
   BuildHuffmanTree stable_sort [(97, 3), (98, 2), (99, 1)] =
     Some (Inr (Node 0 6 (Some (Node 97 3 None None False))
       (Some (Node 0 3 (Some (Node 99 1 None None False)) (Some (Node 98 2 None None False)) True))
       True)) \<and>
   (\<exists>root. BuildHuffmanTree stable_sort [(97, 3), (98, 2), (99, 1)] = Some (Inr root) \<and>
      weights_ok root \<and> Freq root = 6)"
proof -
  have tree: "BuildHuffmanTree stable_sort [(97, 3), (98, 2), (99, 1)] =
     Some (Inr (Node 0 6 (Some (Node 97 3 None None False))
       (Some (Node 0 3 (Some (Node 99 1 None None False)) (Some (Node 98 2 None None False)) True))
       True))"
    by code_simp
  show ?thesis
    using stable_sort_contract tree
      BuildHuffmanTree_weights[OF stable_sort_contract, of "[(97, 3), (98, 2), (99, 1)]"]
    by simp
qed

text \<open>
  C9. For every sort that meets the contract and every visit \<open>fs\<close> of a table with
  \<open>n \<ge> 1\<close> distinct characters, the tree that \<open>BuildHuffmanTree\<close> returns has the entries
  of the table as its leaves, each character once, so \<open>n\<close> leaves, and \<open>n - 1\<close> nodes that
  are no leaves.
\<close>

theorem BuildHuffmanTree_leaf_count:
  assumes "sort_contract srt" "fs \<noteq> []" "distinct (map fst fs)"
  shows "\<exists>root. BuildHuffmanTree srt fs = Some (Inr root) \<and>
    mset (leaf_pairs root) = mset fs \<and> distinct (map fst (leaf_pairs root)) \<and>
    length (leaf_pairs root) = length fs \<and> internal_count root = length fs - 1"
proof -
  obtain root where root: "BuildHuffmanTree srt fs = Some (Inr root)" "is_tree root"
    "mset (leaf_pairs root) = mset fs"
    using BuildHuffmanTree_returns[OF assms(1,2)] by blast
  have len: "length (leaf_pairs root) = length fs"
    by (rule mset_eq_length[OF root(3)])
  have "Suc (internal_count root) = length fs"
    using is_tree_counts[OF root(2)] len by simp
  then have "internal_count root = length fs - 1" by simp
  then show ?thesis
    using root(1,3) len distinct_fst_perm[OF root(3) assms(3)] by blast
qed

theorem BuildHuffmanTree_leaf_count_witness:
  "sort_contract stable_sort \<and> [(97, 3), (98, 2), (99, 1)] \<noteq> ([] :: (rune \<times> 64 word) list) \<and>
   distinct (map fst [(97 :: rune, 3 :: 64 word), (98, 2), (99, 1)]) \<and>
   (\<exists>root. BuildHuffmanTree stable_sort [(97, 3), (98, 2), (99, 1)] = Some (Inr root) \<and>
      mset (leaf_pairs root) = mset [(97, 3), (98, 2), (99, 1)] \<and>
      length (leaf_pairs root) = 3 \<and> internal_count root = 2)"
  using stable_sort_contract
    BuildHuffmanTree_leaf_count[OF stable_sort_contract, of "[(97, 3), (98, 2), (99, 1)]"]
  by (auto simp add: numeral_2_eq_2 numeral_3_eq_3)

text \<open>
  C10. The walk of the decoder is not total. The tree of a table with one character is a
  root that is a leaf. When the root is a leaf, the first bit of any non-empty bit string
  moves to a \<^verbatim>\<open>nil\<close> child and the look at that child's fields panics: \<open>DecryptFile\<close> ends
  in a nil dereference and writes nothing. And every rune other than \<^verbatim>\<open>'0'\<close> is a move to
  the right child: a bit string decodes as the one in which each such rune is replaced by
  \<^verbatim>\<open>'1'\<close>.
\<close>

theorem decrypt_not_total:
  "(sort_contract srt \<longrightarrow>
      BuildHuffmanTree srt [(c, f)] = Some (Inr (Node c f None None False))) \<and>
   (Left root = None \<and> Right root = None \<longrightarrow>
      decrypt_loop (Some root) (Some root) (b # rest) out = Inl NilDereference \<and>
      (contents fsys inputFile = Some (b # rest) \<longrightarrow>
         DecryptFile fsys inputFile outputFile (Some root) = (Some NilDereference, fsys))) \<and>
   decrypt_loop start cur bits out =
     decrypt_loop start cur (map (\<lambda>b. if b = 48 then 48 else 49) bits) out"
proof (intro conjI impI)
  assume "sort_contract srt"
  then show "BuildHuffmanTree srt [(c, f)] = Some (Inr (Node c f None None False))"
    by (rule BuildHuffmanTree_single)
next
  assume leaf: "Left root = None \<and> Right root = None"
  then show panic: "decrypt_loop (Some root) (Some root) (b # rest) out = Inl NilDereference"
    by simp
  assume "contents fsys inputFile = Some (b # rest)"
  moreover have "decrypt_loop (Some root) (Some root) (b # rest) [] = Inl NilDereference"
    using leaf by simp
  ultimately show "DecryptFile fsys inputFile outputFile (Some root) = (Some NilDereference, fsys)"
    by (rule DecryptFile_panics)
next
  show "decrypt_loop start cur bits out =
     decrypt_loop start cur (map (\<lambda>b. if b = 48 then 48 else 49) bits) out"
    by (simp only: decrypt_loop_other_bits)
qed

theorem decrypt_not_total_witness:
  "sort_contract stable_sort \<and>
   BuildHuffmanTree stable_sort [(97, 4)] = Some (Inr (Node 97 4 None None False)) \<and>
   Left (Node 97 4 None None False) = None \<and> Right (Node 97 4 None None False) = None \<and>
   decrypt_loop (Some (Node 97 4 None None False)) (Some (Node 97 4 None None False)) [48] []
     = Inl NilDereference \<and>
   contents \<lparr>contents = [''encrypted.txt'' \<mapsto> [48]], writable = (\<lambda>name. True)\<rparr> ''encrypted.txt''
     = Some [48] \<and>
   DecryptFile \<lparr>contents = [''encrypted.txt'' \<mapsto> [48]], writable = (\<lambda>name. True)\<rparr>
     ''encrypted.txt'' ''decrypted.txt'' (Some (Node 97 4 None None False))
     = (Some NilDereference,
        \<lparr>contents = [''encrypted.txt'' \<mapsto> [48]], writable = (\<lambda>name. True)\<rparr>) \<and>
   decrypt_loop (Some (Node 0 2 (Some (Node 97 1 None None False)) (Some (Node 98 1 None None False)) True))
     (Some (Node 0 2 (Some (Node 97 1 None None False)) (Some (Node 98 1 None None False)) True))
     [50, 48, 120] [] = Inr [98, 97, 98]"
proof -
  let ?leaf = "Node 97 4 None None False"
  let ?fsys = "\<lparr>contents = [''encrypted.txt'' \<mapsto> [48 :: rune]], writable = (\<lambda>name. True)\<rparr>"
  let ?t = "Node 0 2 (Some (Node 97 1 None None False)) (Some (Node 98 1 None None False)) True"
  have leaf: "Left ?leaf = None \<and> Right ?leaf = None" by simp
  have input: "contents ?fsys ''encrypted.txt'' = Some [48]" by simp
  note inst = decrypt_not_total[of stable_sort 97 4 ?leaf 48 "[]" "[]" ?fsys "''encrypted.txt''"
      "''decrypted.txt''" "Some ?t" "Some ?t" "[50, 48, 120]"]
  have valid: "string_of_rune 97 = 97" "string_of_rune 98 = 98"
    by (simp_all add: string_of_rune_def valid_rune_def)
  have "decrypt_loop (Some ?t) (Some ?t) (map (\<lambda>b. if b = 48 then 48 else 49) [50 :: rune, 48, 120]) []
      = Inr [98, 97, 98]"
    by (simp add: valid)
  then have other: "decrypt_loop (Some ?t) (Some ?t) [50, 48, 120] [] = Inr [98, 97, 98]"
    using inst by simp
  show ?thesis
    using stable_sort_contract leaf input inst other by blast
qed

end
